theory Spec2Isabelle
  imports Complex_Main
begin

section \<open>Data model\<close>

text \<open>
  The library has two constructors, \<^verbatim>\<open>asset\<close> and \<^verbatim>\<open>loader\<close>. Each returns an
  object whose methods close over local variables (\<^verbatim>\<open>data\<close>, \<^verbatim>\<open>error\<close>,
  \<^verbatim>\<open>loading\<close>, \<^verbatim>\<open>p\<close>, the subscriber \<^verbatim>\<open>Set\<close>, ...). The model keeps those
  variables in records, the assets in a store indexed by reference, and passes the
  whole world through every operation, because a subscriber of one object may act on
  another one.

  \<^verbatim>\<open>undefined\<close> is \<open>None\<close>. The numbers of the program are the values of a type
  \<open>'n\<close> about which nothing is assumed beyond the two literals the source writes, 0 and
  1: they may be doubles, with \<^verbatim>\<open>NaN\<close>, infinities and rounding. What the runtime
  does with them is part of the environment (see \<open>environment\<close> below).
\<close>

datatype Status = LOADING | LOADED | ERROR | PROGRESS

datatype error = Error (message: string)

text \<open>
  What one invocation of an \<^verbatim>\<open>AssetLoadFunction\<close> does before it returns: it calls
  \<^verbatim>\<open>updateProgress\<close> with the values of \<open>reports\<close>, in order, and then returns a
  plain value, throws, or returns a \<^verbatim>\<open>Promise\<close>. A returned promise settles later;
  that is an event of the environment.
\<close>

datatype 'v result = Returns "'v option" | Throws error | ReturnsPromise

datatype ('v, 'n) call = Call (reports: "'n list") (result: "'v result")

datatype 'v settlement = Resolves "'v option" | Rejects error

text \<open>
  Subscribers. The callbacks handed to \<^verbatim>\<open>subscribe\<close> by users are observers, named
  by a number; the only other function ever subscribed is the loader's own
  \<^verbatim>\<open>updateProgress\<close>, which \<^verbatim>\<open>addToLoader\<close> subscribes to each asset.
\<close>

datatype callback = Observer nat | LoaderUpdateProgress

datatype target = TAsset nat | TLoader

text \<open>
  The promises this code creates (one per \<^verbatim>\<open>load()\<close> call, one by \<^verbatim>\<open>start\<close>) live
  in a store and are named by their index; the values they carry are not tracked. A
  promise returned by a load function belongs to the environment: the world only counts
  them (\<open>results\<close>) to give each a name.
\<close>

datatype pstate = Pending | Fulfilled | Rejected error

text \<open>
  The variables of one \<^verbatim>\<open>asset(loader, options)\<close> closure. \<open>pub_error\<close>,
  \<open>pub_loading\<close> and \<open>pub_promise\<close> are the plain properties \<^verbatim>\<open>error\<close>,
  \<^verbatim>\<open>loading\<close> and \<^verbatim>\<open>promise\<close> of the returned object literal; \<^verbatim>\<open>data\<close>,
  \<^verbatim>\<open>id\<close> and \<^verbatim>\<open>progress\<close> are getters and read the variables. \<open>a_calls\<close>
  counts the invocations of the load function and \<open>a_awaiting\<close> holds the promise of
  the \<^verbatim>\<open>load()\<close> call that is suspended at \<^verbatim>\<open>await result\<close>; both are
  bookkeeping of the model. \<open>a_loader k\<close> is what the load function does when it is
  invoked after \<open>k\<close> earlier invocations.
\<close>

record ('v, 'n) asset_state =
  a_loader :: "nat \<Rightarrow> ('v, 'n) call"
  options_id :: "string option"
  a_data :: "'v option"
  a_error :: "error option"
  a_promise :: "nat option"
  a_loading :: bool
  a_p :: 'n
  a_subscribers :: "callback option list"
  pub_error :: "error option"
  pub_loading :: bool
  pub_promise :: "nat option"
  a_calls :: nat
  a_awaiting :: "nat option"

text \<open>
  An argument of \<^verbatim>\<open>loader\<close> (\<^verbatim>\<open>LoaderInput\<close>): an asset, by reference, or a
  factory, by name.
\<close>

datatype input = Plain nat | Factory nat

text \<open>
  One element of the array given to \<^verbatim>\<open>Promise.all\<close> in \<^verbatim>\<open>start\<close>: the promise
  of \<^verbatim>\<open>asset.load()\<close> for a plain asset, or the stage reached by the
  \<^verbatim>\<open>asset().then(...).then(...)\<close> chain of a factory.
\<close>

datatype branch =
    BLoad nat
  | BFactoryPending nat
  | BFactoryRegistered "nat list"
  | BFactoryLoads "nat list"
  | BFactoryFailed error

text \<open>
  The variables of one \<^verbatim>\<open>loader(...assets)\<close> closure: \<open>inputs\<close> is the rest
  parameter \<^verbatim>\<open>assets\<close> and \<open>l_assets\<close> the array \<^verbatim>\<open>_assets\<close>. \<open>pub_l_loading\<close>
  and \<open>pub_l_error\<close> are the plain properties \<^verbatim>\<open>loading\<close> and \<^verbatim>\<open>error\<close> of the
  returned object. \<open>branches\<close>, \<open>joined\<close> (the handlers of the join have run) and
  \<open>factory_calls\<close> (the factories called so far) are bookkeeping of the model.
\<close>

record 'n loader_state =
  inputs :: "input list"
  l_subscribers :: "nat option list"
  l_assets :: "nat list"
  mapOfAssetsWithID :: "string \<rightharpoonup> nat"
  l_promise :: "nat option"
  l_loading :: bool
  l_error :: "error option"
  l_progress :: 'n
  pub_l_loading :: bool
  pub_l_error :: "error option"
  branches :: "branch list"
  joined :: bool
  factory_calls :: "nat list"

text \<open>
  One call of an observer: which object called it, with which status, and the state at
  that moment (the object's \<^verbatim>\<open>loading\<close> variable and its progress, and the progress
  of every asset). The trace of a world lists the calls, oldest first.
\<close>

record 'n entry =
  e_target :: target
  e_observer :: nat
  e_status :: Status
  e_loading :: bool
  e_progress :: 'n
  e_assets :: "'n list"

record ('v, 'n) world =
  store :: "('v, 'n) asset_state list"
  ldr :: "'n loader_state"
  promises :: "pstate list"
  results :: nat
  trace :: "'n entry list"

text \<open>
  The environment of the library. \<open>reaction n s\<close> is what observer \<open>n\<close> does when
  called with status \<open>s\<close>, besides looking: it may call unsubscribe functions it holds,
  each for one observer on one object. Observers of this model return normally and call
  neither \<^verbatim>\<open>subscribe\<close>, \<^verbatim>\<open>load\<close> nor \<^verbatim>\<open>start\<close> from inside a notification.

  The other fields are the number operations of the runtime that the source uses:
  \<open>num_add\<close> is \<^verbatim>\<open>+\<close>, \<open>num_div x k\<close> is \<^verbatim>\<open>x / k\<close> for an array length \<open>k\<close>, and
  \<open>num_falsy x\<close> says that \<open>x\<close> counts as false in \<^verbatim>\<open>x || 0\<close> (for a double: 0, -0
  and \<^verbatim>\<open>NaN\<close>). Nothing is assumed about them.
\<close>

record 'n environment =
  reaction :: "nat \<Rightarrow> Status \<Rightarrow> (target \<times> nat) list"
  num_add :: "'n \<Rightarrow> 'n \<Rightarrow> 'n"
  num_div :: "'n \<Rightarrow> nat \<Rightarrow> 'n"
  num_falsy :: "'n \<Rightarrow> bool"

section \<open>The subscriber Set\<close>

text \<open>
  A \<^verbatim>\<open>Set\<close> is its list of entries in insertion order. \<^verbatim>\<open>delete\<close> empties the
  entry's slot and keeps the slot, \<^verbatim>\<open>add\<close> appends unless the value is present, and
  \<^verbatim>\<open>forEach\<close> walks the slots by index, reading each slot when it reaches it, so an
  entry deleted before its turn is not visited. No callback of this model adds to a
  set during a broadcast, so the list keeps its length while \<^verbatim>\<open>forEach\<close> runs.
\<close>

definition set_add :: "'a \<Rightarrow> 'a option list \<Rightarrow> 'a option list" where
  "set_add c xs = (if Some c \<in> set xs then xs else xs @ [Some c])"

definition set_delete :: "'a \<Rightarrow> 'a option list \<Rightarrow> 'a option list" where
  "set_delete c xs = map (\<lambda>e. if e = Some c then None else e) xs"

definition forEach :: "('w \<Rightarrow> 'a option list) \<Rightarrow> ('a \<Rightarrow> 'w \<Rightarrow> 'w) \<Rightarrow> 'w \<Rightarrow> 'w" where
  "forEach entries f w =
     fold (\<lambda>i w. case entries w ! i of None \<Rightarrow> w | Some c \<Rightarrow> f c w)
       [0..<length (entries w)] w"

section \<open>Operations\<close>

text \<open>
  Assignments to the variables of asset \<open>a\<close> and of the loader, the creation of a
  promise and the fulfilment of one.
\<close>

definition upd_asset :: "nat \<Rightarrow> (('v, 'n::{zero,one}) asset_state \<Rightarrow> ('v, 'n) asset_state) \<Rightarrow> ('v, 'n) world \<Rightarrow> ('v, 'n) world" where
  "upd_asset a f w = w\<lparr>store := (store w)[a := f (store w ! a)]\<rparr>"

definition upd_loader :: "(('n::{zero,one}) loader_state \<Rightarrow> 'n loader_state) \<Rightarrow> ('v, 'n) world \<Rightarrow> ('v, 'n) world" where
  "upd_loader f w = w\<lparr>ldr := f (ldr w)\<rparr>"

definition alloc :: "pstate \<Rightarrow> ('v, 'n::{zero,one}) world \<Rightarrow> ('v, 'n) world \<times> nat" where
  "alloc st w = (w\<lparr>promises := promises w @ [st]\<rparr>, length (promises w))"

definition fulfil :: "nat \<Rightarrow> ('v, 'n::{zero,one}) world \<Rightarrow> ('v, 'n) world" where
  "fulfil pr w = w\<lparr>promises := (promises w)[pr := Fulfilled]\<rparr>"

text \<open>The function returned by \<^verbatim>\<open>subscribe\<close>: \<^verbatim>\<open>subscribers.delete(callback)\<close>.\<close>

fun unsubscribe :: "target \<Rightarrow> nat \<Rightarrow> ('v, 'n::{zero,one}) world \<Rightarrow> ('v, 'n) world" where
  "unsubscribe (TAsset a) n w =
     upd_asset a (\<lambda>s. s\<lparr>a_subscribers := set_delete (Observer n) (a_subscribers s)\<rparr>) w"
| "unsubscribe TLoader n w =
     upd_loader (\<lambda>l. l\<lparr>l_subscribers := set_delete n (l_subscribers l)\<rparr>) w"

text \<open>\<^verbatim>\<open>subscribe\<close> of an asset and of the loader: \<^verbatim>\<open>subscribers.add(callback)\<close>.\<close>

definition subscribe :: "nat \<Rightarrow> callback \<Rightarrow> ('v, 'n::{zero,one}) world \<Rightarrow> ('v, 'n) world" where
  "subscribe a c w = upd_asset a (\<lambda>s. s\<lparr>a_subscribers := set_add c (a_subscribers s)\<rparr>) w"

definition loader_subscribe :: "nat \<Rightarrow> ('v, 'n::{zero,one}) world \<Rightarrow> ('v, 'n) world" where
  "loader_subscribe n w = upd_loader (\<lambda>l. l\<lparr>l_subscribers := set_add n (l_subscribers l)\<rparr>) w"

text \<open>The trace entry of a call of observer \<open>n\<close> made now.\<close>

definition snapshot :: "target \<Rightarrow> nat \<Rightarrow> Status \<Rightarrow> ('v, 'n::{zero,one}) world \<Rightarrow> 'n entry" where
  "snapshot t n s w =
     \<lparr>e_target = t, e_observer = n, e_status = s,
      e_loading = (case t of TAsset a \<Rightarrow> a_loading (store w ! a) | TLoader \<Rightarrow> l_loading (ldr w)),
      e_progress = (case t of TAsset a \<Rightarrow> a_p (store w ! a) | TLoader \<Rightarrow> l_progress (ldr w)),
      e_assets = map a_p (store w)\<rparr>"

text \<open>Calling observer \<open>n\<close> with status \<open>s\<close> on behalf of object \<open>t\<close>.\<close>

definition notify :: "('n::{zero,one}) environment \<Rightarrow> target \<Rightarrow> nat \<Rightarrow> Status \<Rightarrow> ('v, 'n) world \<Rightarrow> ('v, 'n) world" where
  "notify env t n s w =
     fold (\<lambda>(t', m). unsubscribe t' m) (reaction env n s) (w\<lparr>trace := trace w @ [snapshot t n s w]\<rparr>)"

text \<open>\<^verbatim>\<open>subscribers.forEach((callback) => callback(status))\<close> of the loader.\<close>

definition loader_broadcast :: "('n::{zero,one}) environment \<Rightarrow> Status \<Rightarrow> ('v, 'n) world \<Rightarrow> ('v, 'n) world" where
  "loader_broadcast env s w =
     forEach (\<lambda>w. l_subscribers (ldr w)) (\<lambda>n. notify env TLoader n s) w"

text \<open>\<^verbatim>\<open>x || 0\<close> on a number \<open>x\<close>.\<close>

definition or_zero :: "('n::{zero,one}) environment \<Rightarrow> 'n \<Rightarrow> 'n" where
  "or_zero env x = (if num_falsy env x then 0 else x)"

text \<open>
  \<^verbatim>\<open>updateProgress\<close> of the loader: \<^verbatim>\<open>reduce\<close> adds from 0, left to right, with the
  addition of the runtime; the quotient is its division.
\<close>

definition loader_updateProgress :: "('n::{zero,one}) environment \<Rightarrow> ('v, 'n) world \<Rightarrow> ('v, 'n) world" where
  "loader_updateProgress env w =
     (let total = length (l_assets (ldr w));
          loaded = foldl (\<lambda>acc a. num_add env acc (or_zero env (a_p (store w ! a)))) 0 (l_assets (ldr w));
          w1 = upd_loader (\<lambda>l. l\<lparr>l_progress := (if total = 0 then 0 else num_div env loaded total)\<rparr>) w
      in loader_broadcast env PROGRESS w1)"

text \<open>Calling a subscriber of asset \<open>a\<close>.\<close>

fun invoke :: "('n::{zero,one}) environment \<Rightarrow> nat \<Rightarrow> Status \<Rightarrow> callback \<Rightarrow> ('v, 'n) world \<Rightarrow> ('v, 'n) world" where
  "invoke env a s (Observer n) w = notify env (TAsset a) n s w"
| "invoke env a s LoaderUpdateProgress w = loader_updateProgress env w"

text \<open>\<^verbatim>\<open>subscribers.forEach((callback) => callback(status))\<close> of asset \<open>a\<close>.\<close>

definition broadcast :: "('n::{zero,one}) environment \<Rightarrow> nat \<Rightarrow> Status \<Rightarrow> ('v, 'n) world \<Rightarrow> ('v, 'n) world" where
  "broadcast env a s w = forEach (\<lambda>w. a_subscribers (store w ! a)) (invoke env a s) w"

text \<open>\<^verbatim>\<open>updateProgress\<close> of asset \<open>a\<close>, the function handed to its load function.\<close>

definition updateProgress :: "('n::{zero,one}) environment \<Rightarrow> nat \<Rightarrow> 'n \<Rightarrow> ('v, 'n) world \<Rightarrow> ('v, 'n) world" where
  "updateProgress env a progress w =
     broadcast env a PROGRESS (upd_asset a (\<lambda>s. s\<lparr>a_p := progress\<rparr>) w)"

text \<open>The \<^verbatim>\<open>catch (e)\<close> block of \<^verbatim>\<open>load\<close>.\<close>

definition catch :: "('n::{zero,one}) environment \<Rightarrow> nat \<Rightarrow> error \<Rightarrow> ('v, 'n) world \<Rightarrow> ('v, 'n) world" where
  "catch env a e w = broadcast env a ERROR (upd_asset a (\<lambda>s. s\<lparr>a_error := Some e\<rparr>) w)"

text \<open>
  The statements of \<^verbatim>\<open>load\<close> after the \<^verbatim>\<open>try\<close>: \<^verbatim>\<open>loading = false; p = 1;\<close>, the
  \<^verbatim>\<open>LOADED\<close> broadcast and \<^verbatim>\<open>return data\<close>, which fulfils the promise \<open>pr\<close> of
  this call.
\<close>

definition finish :: "('n::{zero,one}) environment \<Rightarrow> nat \<Rightarrow> nat \<Rightarrow> ('v, 'n) world \<Rightarrow> ('v, 'n) world" where
  "finish env a pr w =
     (let w1 = upd_asset a (\<lambda>s. s\<lparr>a_loading := False\<rparr>) w;
          w2 = upd_asset a (\<lambda>s. s\<lparr>a_p := 1\<rparr>) w1;
          w3 = broadcast env a LOADED w2
      in fulfil pr w3)"

text \<open>
  \<^verbatim>\<open>loader(updateProgress)\<close>: one invocation of the load function. It is counted,
  its synchronous progress reports run, and what it returns or throws is handed back.
\<close>

definition invoke_loader :: "('n::{zero,one}) environment \<Rightarrow> nat \<Rightarrow> ('v, 'n) world \<Rightarrow> ('v, 'n) world \<times> 'v result" where
  "invoke_loader env a w =
     (let c = a_loader (store w ! a) (a_calls (store w ! a));
          w1 = upd_asset a (\<lambda>s. s\<lparr>a_calls := Suc (a_calls s)\<rparr>) w;
          w2 = fold (updateProgress env a) (reports c) w1
      in (w2, result c))"

text \<open>
  \<^verbatim>\<open>load\<close> up to its first suspension. An \<^verbatim>\<open>async\<close> function runs synchronously
  until its first \<^verbatim>\<open>await\<close>; when the load function returns a plain value or throws
  there is none, and the whole body runs inside the call. The result is the new world
  and the promise the call returns.
\<close>

definition load :: "('n::{zero,one}) environment \<Rightarrow> nat \<Rightarrow> ('v, 'n) world \<Rightarrow> ('v, 'n) world \<times> nat" where
  "load env a w =
     (let (w0, pr) = alloc Pending w in
      if a_loading (store w0 ! a) then (fulfil pr w0, pr)
      else
        let w1 = upd_asset a (\<lambda>s. s\<lparr>a_loading := True\<rparr>) w0;
            w2 = broadcast env a LOADING w1;
            (w3, r) = invoke_loader env a w2
        in (case r of
              ReturnsPromise \<Rightarrow>
                (let w4 = w3\<lparr>results := Suc (results w3)\<rparr>
                 in (upd_asset a (\<lambda>s. s\<lparr>a_promise := Some (results w3), a_awaiting := Some pr\<rparr>) w4, pr))
            | Returns v \<Rightarrow> (finish env a pr (upd_asset a (\<lambda>s. s\<lparr>a_data := v\<rparr>) w3), pr)
            | Throws e \<Rightarrow> (finish env a pr (catch env a e w3), pr)))"

text \<open>
  The continuation of \<^verbatim>\<open>load\<close> after \<^verbatim>\<open>await result\<close>, run when the promise the
  load function returned settles.
\<close>

definition resume :: "('n::{zero,one}) environment \<Rightarrow> nat \<Rightarrow> 'v settlement \<Rightarrow> ('v, 'n) world \<Rightarrow> ('v, 'n) world" where
  "resume env a out w =
     (case a_awaiting (store w ! a) of
        None \<Rightarrow> w
      | Some pr \<Rightarrow>
          (let w0 = upd_asset a (\<lambda>s. s\<lparr>a_awaiting := None\<rparr>) w
           in case out of
                Resolves v \<Rightarrow> finish env a pr (upd_asset a (\<lambda>s. s\<lparr>a_data := v\<rparr>) w0)
              | Rejects e \<Rightarrow> finish env a pr (catch env a e w0)))"

text \<open>The \<^verbatim>\<open>data\<close> getter: the value read, and the world after the read.\<close>

definition get_data :: "('n::{zero,one}) environment \<Rightarrow> nat \<Rightarrow> ('v, 'n) world \<Rightarrow> 'v option \<times> ('v, 'n) world" where
  "get_data env a w =
     (let w' = (if a_data (store w ! a) = None \<and> \<not> a_loading (store w ! a)
                then fst (load env a w) else w)
      in (a_data (store w' ! a), w'))"

text \<open>
  The constructor. The object literal it returns copies \<^verbatim>\<open>error\<close>, \<^verbatim>\<open>loading\<close>
  and \<^verbatim>\<open>promise\<close> as they are when it is built.
\<close>

definition asset :: "(nat \<Rightarrow> ('v, 'n::{zero,one}) call) \<Rightarrow> string option \<Rightarrow> ('v, 'n) asset_state" where
  "asset loader_function ident =
     (let data = None; error = None; promise = None; loading = False; p = 0
      in \<lparr>a_loader = loader_function, options_id = ident, a_data = data, a_error = error,
          a_promise = promise, a_loading = loading, a_p = p, a_subscribers = [],
          pub_error = error, pub_loading = loading, pub_promise = promise,
          a_calls = 0, a_awaiting = None\<rparr>)"

section \<open>The loader\<close>

text \<open>
  The constructor. As for an asset, the object it returns copies \<^verbatim>\<open>loading\<close> and
  \<^verbatim>\<open>error\<close> as they are when it is built; \<^verbatim>\<open>progress\<close> is a getter.
\<close>

definition loader :: "input list \<Rightarrow> ('n::{zero,one}) loader_state" where
  "loader assets =
     (let promise = None; loading = False; error = None; progress = 0
      in \<lparr>inputs = assets, l_subscribers = [], l_assets = [], mapOfAssetsWithID = Map.empty,
          l_promise = promise, l_loading = loading, l_error = error, l_progress = progress,
          pub_l_loading = loading, pub_l_error = error,
          branches = [], joined = False, factory_calls = []\<rparr>)"

text \<open>
  \<^verbatim>\<open>asset.id && mapOfAssetsWithID.set(asset.id, asset)\<close>: the guard is the
  truthiness of the id, which fails for \<^verbatim>\<open>undefined\<close> and for the empty string.
\<close>

definition addToLoader :: "nat \<Rightarrow> ('v, 'n::{zero,one}) world \<Rightarrow> ('v, 'n) world" where
  "addToLoader a w =
     (let w1 = upd_loader (\<lambda>l. l\<lparr>l_assets := l_assets l @ [a]\<rparr>) w;
          w2 = (case options_id (store w1 ! a) of
                  None \<Rightarrow> w1
                | Some i \<Rightarrow>
                    if i = [] then w1
                    else upd_loader (\<lambda>l. l\<lparr>mapOfAssetsWithID := (mapOfAssetsWithID l)(i \<mapsto> a)\<rparr>) w1)
      in subscribe a LoaderUpdateProgress w2)"

text \<open>
  The callback of \<^verbatim>\<open>assets.map\<close> in \<^verbatim>\<open>start\<close>. A factory is called (the call is
  recorded) and its promise is pending; a plain asset is registered and loaded.
\<close>

fun start_input :: "('n::{zero,one}) environment \<Rightarrow> input \<Rightarrow> ('v, 'n) world \<Rightarrow> ('v, 'n) world \<times> branch" where
  "start_input env (Factory k) w =
     (upd_loader (\<lambda>l. l\<lparr>factory_calls := factory_calls l @ [k]\<rparr>) w, BFactoryPending k)"
| "start_input env (Plain a) w =
     (let (w1, pr) = load env a (addToLoader a w) in (w1, BLoad pr))"

text \<open>\<^verbatim>\<open>assets.map(...)\<close>: the arguments in order, each in the world the previous left.\<close>

fun map_inputs :: "('n::{zero,one}) environment \<Rightarrow> input list \<Rightarrow> ('v, 'n) world \<Rightarrow> ('v, 'n) world \<times> branch list" where
  "map_inputs env [] w = (w, [])"
| "map_inputs env (x # xs) w =
     (let (w1, b) = start_input env x w;
          (w2, bs) = map_inputs env xs w1
      in (w2, b # bs))"

text \<open>
  \<^verbatim>\<open>start\<close>: the new world and the promise returned. The handlers attached to the
  promise run later, as a step of their own (\<open>join_handlers\<close>).
\<close>

definition start :: "('n::{zero,one}) environment \<Rightarrow> ('v, 'n) world \<Rightarrow> ('v, 'n) world \<times> nat" where
  "start env w =
     (let w1 = upd_loader (\<lambda>l. l\<lparr>l_loading := True\<rparr>) w
      in case l_promise (ldr w1) of
           Some pr \<Rightarrow> (w1, pr)
         | None \<Rightarrow>
             (let w2 = loader_broadcast env LOADING w1;
                  (w3, bs) = map_inputs env (inputs (ldr w2)) w2;
                  (w4, pr) = alloc Pending w3
              in (upd_loader (\<lambda>l. l\<lparr>l_promise := Some pr, branches := bs\<rparr>) w4, pr)))"

text \<open>\<^verbatim>\<open>get(id)\<close>.\<close>

definition get :: "string \<Rightarrow> ('v, 'n::{zero,one}) world \<Rightarrow> nat option" where
  "get ident w = mapOfAssetsWithID (ldr w) ident"

text \<open>
  \<^verbatim>\<open>Promise.all\<close> over promises whose states are known: rejected as soon as one is,
  fulfilled when all are.
\<close>

fun all_state :: "pstate list \<Rightarrow> pstate" where
  "all_state [] = Fulfilled"
| "all_state (Rejected e # ps) = Rejected e"
| "all_state (Fulfilled # ps) = all_state ps"
| "all_state (Pending # ps) = (case all_state ps of Rejected e \<Rightarrow> Rejected e | _ \<Rightarrow> Pending)"

text \<open>The state of the promise of one branch, read off the promises it waits for.\<close>

fun branch_state :: "pstate list \<Rightarrow> branch \<Rightarrow> pstate" where
  "branch_state ps (BLoad pr) = ps ! pr"
| "branch_state ps (BFactoryPending k) = Pending"
| "branch_state ps (BFactoryRegistered refs) = Pending"
| "branch_state ps (BFactoryLoads prs) = all_state (map (\<lambda>pr. ps ! pr) prs)"
| "branch_state ps (BFactoryFailed e) = Rejected e"

text \<open>The outer \<^verbatim>\<open>Promise.all\<close> settles once, when its branches allow it.\<close>

definition update_join :: "('v, 'n::{zero,one}) world \<Rightarrow> ('v, 'n) world" where
  "update_join w =
     (case l_promise (ldr w) of
        None \<Rightarrow> w
      | Some j \<Rightarrow>
          if promises w ! j = Pending
          then w\<lparr>promises := (promises w)[j := all_state (map (branch_state (promises w)) (branches (ldr w)))]\<rparr>
          else w)"

text \<open>The \<^verbatim>\<open>.finally\<close> handler of \<^verbatim>\<open>start\<close>.\<close>

definition finally_handler :: "('n::{zero,one}) environment \<Rightarrow> ('v, 'n) world \<Rightarrow> ('v, 'n) world" where
  "finally_handler env w = loader_broadcast env LOADED (upd_loader (\<lambda>l. l\<lparr>l_loading := False\<rparr>) w)"

text \<open>
  The handlers \<^verbatim>\<open>promise.catch(...).finally(...)\<close>, run once after the join has
  settled: the \<^verbatim>\<open>catch\<close> handler only when it rejected.
\<close>

definition join_handlers :: "('n::{zero,one}) environment \<Rightarrow> ('v, 'n) world \<Rightarrow> ('v, 'n) world" where
  "join_handlers env w =
     (case l_promise (ldr w) of
        None \<Rightarrow> w
      | Some j \<Rightarrow>
          if joined (ldr w) then w
          else (case promises w ! j of
                  Pending \<Rightarrow> w
                | Fulfilled \<Rightarrow> finally_handler env (upd_loader (\<lambda>l. l\<lparr>joined := True\<rparr>) w)
                | Rejected e \<Rightarrow>
                    finally_handler env
                      (loader_broadcast env ERROR
                         (upd_loader (\<lambda>l. l\<lparr>l_error := Some e\<rparr>)
                            (upd_loader (\<lambda>l. l\<lparr>joined := True\<rparr>) w)))))"

text \<open>
  The two \<^verbatim>\<open>then\<close> handlers of a factory branch: the first registers every asset of
  the resolved array, the second calls \<^verbatim>\<open>load()\<close> on each.
\<close>

fun load_each :: "('n::{zero,one}) environment \<Rightarrow> nat list \<Rightarrow> ('v, 'n) world \<Rightarrow> ('v, 'n) world \<times> nat list" where
  "load_each env [] w = (w, [])"
| "load_each env (a # refs) w =
     (let (w1, pr) = load env a w;
          (w2, prs) = load_each env refs w1
      in (w2, pr # prs))"

definition set_branch :: "nat \<Rightarrow> branch \<Rightarrow> ('v, 'n::{zero,one}) world \<Rightarrow> ('v, 'n) world" where
  "set_branch i b w = upd_loader (\<lambda>l. l\<lparr>branches := (branches l)[i := b]\<rparr>) w"

definition factory_resolved :: "nat \<Rightarrow> nat list \<Rightarrow> ('v, 'n::{zero,one}) world \<Rightarrow> ('v, 'n) world" where
  "factory_resolved i refs w =
     (if i < length (branches (ldr w)) then
        (case branches (ldr w) ! i of
           BFactoryPending k \<Rightarrow> set_branch i (BFactoryRegistered refs) (fold addToLoader refs w)
         | _ \<Rightarrow> w)
      else w)"

definition factory_rejected :: "nat \<Rightarrow> error \<Rightarrow> ('v, 'n::{zero,one}) world \<Rightarrow> ('v, 'n) world" where
  "factory_rejected i e w =
     (if i < length (branches (ldr w)) then
        (case branches (ldr w) ! i of
           BFactoryPending k \<Rightarrow> set_branch i (BFactoryFailed e) w
         | _ \<Rightarrow> w)
      else w)"

definition factory_then :: "('n::{zero,one}) environment \<Rightarrow> nat \<Rightarrow> ('v, 'n) world \<Rightarrow> ('v, 'n) world" where
  "factory_then env i w =
     (if i < length (branches (ldr w)) then
        (case branches (ldr w) ! i of
           BFactoryRegistered refs \<Rightarrow>
             (let (w1, prs) = load_each env refs w in set_branch i (BFactoryLoads prs) w1)
         | _ \<Rightarrow> w)
      else w)"

section \<open>Runs\<close>

text \<open>
  Everything happens on one thread, one step at a time. A step is a call by the user
  (\<open>CallLoad\<close>, \<open>ReadData\<close>, \<open>CallSubscribe\<close>, \<open>CallUnsubscribe\<close>, \<open>CallStart\<close>), a load
  function that calls the \<^verbatim>\<open>updateProgress\<close> it was given (\<open>Report\<close>, at any time),
  a load function whose promise settles while its asset awaits it, a factory whose
  promise settles, or a promise reaction of \<^verbatim>\<open>start\<close>. A step that
  cannot happen in the current state leaves it unchanged.
\<close>

datatype ('v, 'n) event =
    CallLoad nat
  | ReadData nat
  | CallSubscribe target nat
  | CallUnsubscribe target nat
  | CallStart
  | Report nat 'n
  | Settle nat "'v settlement"
  | FactoryResolves nat "nat list"
  | FactoryRejects nat error
  | FactoryThen nat
  | JoinSettled

fun perform :: "('n::{zero,one}) environment \<Rightarrow> ('v, 'n) event \<Rightarrow> ('v, 'n) world \<Rightarrow> ('v, 'n) world" where
  "perform env (CallLoad a) w = fst (load env a w)"
| "perform env (ReadData a) w = snd (get_data env a w)"
| "perform env (CallSubscribe (TAsset a) n) w = subscribe a (Observer n) w"
| "perform env (CallSubscribe TLoader n) w = loader_subscribe n w"
| "perform env (CallUnsubscribe t n) w = unsubscribe t n w"
| "perform env CallStart w = fst (start env w)"
| "perform env (Report a x) w = updateProgress env a x w"
| "perform env (Settle a out) w = resume env a out w"
| "perform env (FactoryResolves i refs) w = factory_resolved i refs w"
| "perform env (FactoryRejects i e) w = factory_rejected i e w"
| "perform env (FactoryThen i) w = factory_then env i w"
| "perform env JoinSettled w = join_handlers env w"

definition step :: "('n::{zero,one}) environment \<Rightarrow> ('v, 'n) event \<Rightarrow> ('v, 'n) world \<Rightarrow> ('v, 'n) world" where
  "step env ev w = update_join (perform env ev w)"

definition run :: "('n::{zero,one}) environment \<Rightarrow> ('v, 'n) event list \<Rightarrow> ('v, 'n) world \<Rightarrow> ('v, 'n) world" where
  "run env evs w = fold (step env) evs w"

definition init :: "('v, 'n::{zero,one}) asset_state list \<Rightarrow> input list \<Rightarrow> ('v, 'n) world" where
  "init assets ins = \<lparr>store = assets, ldr = loader ins, promises = [], results = 0, trace = []\<rparr>"

section \<open>Notions used to state the properties\<close>

definition shrinks :: "'a option list \<Rightarrow> 'a option list \<Rightarrow> bool" where
  "shrinks xs ys \<longleftrightarrow> length ys = length xs \<and> (\<forall>i<length xs. ys ! i = xs ! i \<or> ys ! i = None)"

definition distinct_entries :: "'a option list \<Rightarrow> bool" where
  "distinct_entries xs = distinct (filter (\<lambda>e. e \<noteq> None) xs)"

definition visit :: "('w \<Rightarrow> 'a option list) \<Rightarrow> ('a \<Rightarrow> 'w \<Rightarrow> 'w) \<Rightarrow> nat \<Rightarrow> 'w \<Rightarrow> 'w" where
  "visit entries f i w = (case entries w ! i of None \<Rightarrow> w | Some c \<Rightarrow> f c w)"

text \<open>
  A notification changes little: subscriber sets lose entries, the loader's
  \<^verbatim>\<open>progress\<close> may be recomputed and the trace grows. \<open>quiet P w w'\<close> says that
  \<open>w'\<close> differs from \<open>w\<close> in at most this way, every new trace entry satisfying \<open>P\<close>.
\<close>

definition core :: "('v, 'n::{zero,one}) asset_state \<Rightarrow> ('v, 'n) asset_state" where
  "core s = s\<lparr>a_subscribers := []\<rparr>"

definition lcore :: "('n::{zero,one}) loader_state \<Rightarrow> 'n loader_state" where
  "lcore l = l\<lparr>l_subscribers := [], l_progress := 0\<rparr>"

definition quiet :: "(('n::{zero,one}) entry \<Rightarrow> bool) \<Rightarrow> ('v, 'n) world \<Rightarrow> ('v, 'n) world \<Rightarrow> bool" where
  "quiet P w w' \<longleftrightarrow>
     length (store w') = length (store w) \<and>
     (\<forall>b<length (store w). core (store w' ! b) = core (store w ! b) \<and>
        shrinks (a_subscribers (store w ! b)) (a_subscribers (store w' ! b))) \<and>
     lcore (ldr w') = lcore (ldr w) \<and>
     shrinks (l_subscribers (ldr w)) (l_subscribers (ldr w')) \<and>
     promises w' = promises w \<and> results w' = results w \<and>
     (\<exists>new. trace w' = trace w @ new \<and> (\<forall>e\<in>set new. P e))"

text \<open>The calls observer \<open>n\<close> received from object \<open>t\<close>, oldest first.\<close>

definition heard :: "target \<Rightarrow> nat \<Rightarrow> ('v, 'n::{zero,one}) world \<Rightarrow> 'n entry list" where
  "heard t n w = filter (\<lambda>e. e_target e = t \<and> e_observer e = n) (trace w)"

definition view :: "target \<Rightarrow> nat \<Rightarrow> ('v, 'n::{zero,one}) world \<Rightarrow> (Status \<times> bool \<times> 'n) list" where
  "view t n w = map (\<lambda>e. (e_status e, e_loading e, e_progress e)) (heard t n w)"

fun subscribed :: "target \<Rightarrow> nat \<Rightarrow> ('v, 'n::{zero,one}) world \<Rightarrow> bool" where
  "subscribed (TAsset a) n w \<longleftrightarrow> Some (Observer n) \<in> set (a_subscribers (store w ! a))"
| "subscribed TLoader n w \<longleftrightarrow> Some n \<in> set (l_subscribers (ldr w))"

text \<open>Every subscriber set holds each callback at most once, as a \<^verbatim>\<open>Set\<close> does.\<close>

definition sets_ok :: "('v, 'n::{zero,one}) world \<Rightarrow> bool" where
  "sets_ok w \<longleftrightarrow>
     list_all (\<lambda>s. distinct_entries (a_subscribers s)) (store w) \<and>
     distinct_entries (l_subscribers (ldr w))"

text \<open>
  Between two calls of \<^verbatim>\<open>subscribe\<close> the subscriber sets only lose entries.
\<close>

definition shrunk :: "('v, 'n::{zero,one}) world \<Rightarrow> ('v, 'n) world \<Rightarrow> bool" where
  "shrunk w w' \<longleftrightarrow>
     (\<forall>b. shrinks (a_subscribers (store w ! b)) (a_subscribers (store w' ! b))) \<and>
     shrinks (l_subscribers (ldr w)) (l_subscribers (ldr w'))"

text \<open>
  The first statements of a \<^verbatim>\<open>load()\<close> call on an asset that is not loading:
  \<open>started\<close> is the world after \<^verbatim>\<open>loading = true\<close> and the \<^verbatim>\<open>LOADING\<close>
  broadcast, \<open>called\<close> the world when the load function has returned or thrown.
\<close>

definition started :: "('n::{zero,one}) environment \<Rightarrow> nat \<Rightarrow> ('v, 'n) world \<Rightarrow> ('v, 'n) world" where
  "started env a w =
     broadcast env a LOADING (upd_asset a (\<lambda>s. s\<lparr>a_loading := True\<rparr>) (fst (alloc Pending w)))"

definition called :: "('n::{zero,one}) environment \<Rightarrow> nat \<Rightarrow> ('v, 'n) world \<Rightarrow> ('v, 'n) world" where
  "called env a w = fst (invoke_loader env a (started env a w))"

text \<open>What the load function of asset \<open>a\<close> does at its next invocation.\<close>

definition next_call :: "nat \<Rightarrow> ('v, 'n::{zero,one}) world \<Rightarrow> ('v, 'n) call" where
  "next_call a w = a_loader (store w ! a) (a_calls (store w ! a))"

text \<open>
  Every asset object of the world came from the constructor: its plain properties
  \<^verbatim>\<open>error\<close>, \<^verbatim>\<open>loading\<close> and \<^verbatim>\<open>promise\<close> hold what the variables held then.
\<close>

definition constructed :: "('v, 'n::{zero,one}) world \<Rightarrow> bool" where
  "constructed w \<longleftrightarrow>
     list_all (\<lambda>s. pub_error s = None \<and> \<not> pub_loading s \<and> pub_promise s = None) (store w)"

text \<open>
  What the operations of an asset never change: the loader, apart from what a
  notification may do to it, the ids of the assets and their number.
\<close>

definition outline :: "('v, 'n::{zero,one}) world \<Rightarrow> 'n loader_state \<times> (nat \<Rightarrow> string option) \<times> nat" where
  "outline w = (lcore (ldr w), (\<lambda>b. options_id (store w ! b)), length (store w))"

text \<open>The arithmetic mean, 0 for no values.\<close>

definition mean :: "rat list \<Rightarrow> rat" where
  "mean xs = (if xs = [] then 0 else sum_list xs / of_nat (length xs))"

text \<open>
  The mean as the loader computes it, in the arithmetic of the environment: the values
  are added from the left, starting from 0, a value that counts as false entering the
  sum as 0, and the sum is divided by the number of values; 0 for no values.
\<close>

definition counted_mean :: "('n::{zero,one}) environment \<Rightarrow> 'n list \<Rightarrow> 'n" where
  "counted_mean env xs =
     (if xs = [] then 0
      else num_div env (foldl (num_add env) 0 (map (or_zero env) xs)) (length xs))"

text \<open>The plain assets among the arguments of \<^verbatim>\<open>loader\<close>, in order.\<close>

fun plain_refs :: "input list \<Rightarrow> nat list" where
  "plain_refs [] = []"
| "plain_refs (Plain a # xs) = a # plain_refs xs"
| "plain_refs (Factory k # xs) = plain_refs xs"

text \<open>The asset registered last among those whose id is \<open>i\<close>.\<close>

definition latest :: "string \<Rightarrow> ('v, 'n::{zero,one}) world \<Rightarrow> nat option" where
  "latest i w = find (\<lambda>a. options_id (store w ! a) = Some i) (rev (l_assets (ldr w)))"

text \<open>
  The id index agrees with the registrations: an id other than the empty string leads
  to the asset registered last under it, and the empty string to nothing.
\<close>

definition indexed :: "('v, 'n::{zero,one}) world \<Rightarrow> bool" where
  "indexed w \<longleftrightarrow> (\<forall>i. get i w = (if i = [] then None else latest i w))"

text \<open>
  A step that leaves the shape of the join alone: the arguments, the branches, the
  promise and the error of the loader are as before, promises are only added pending
  or fulfilled, and no observer of the loader is told \<^verbatim>\<open>ERROR\<close>.
\<close>

definition mild :: "('v, 'n::{zero,one}) world \<Rightarrow> ('v, 'n) world \<Rightarrow> bool" where
  "mild w w' \<longleftrightarrow>
     inputs (ldr w') = inputs (ldr w) \<and> branches (ldr w') = branches (ldr w) \<and>
     l_promise (ldr w') = l_promise (ldr w) \<and> l_error (ldr w') = l_error (ldr w) \<and>
     length (promises w) \<le> length (promises w') \<and>
     (\<forall>s\<in>set (promises w'). s \<in> set (promises w) \<or> s = Pending \<or> s = Fulfilled) \<and>
     (\<exists>new. trace w' = trace w @ new \<and>
        (\<forall>e\<in>set new. e_target e = TLoader \<longrightarrow> e_status e \<noteq> ERROR))"

text \<open>
  The state of a loader all of whose arguments are plain assets: every branch of the
  join is the promise of a \<^verbatim>\<open>load()\<close> call, no promise is rejected, no error is latched
  and no observer of the loader has been told \<^verbatim>\<open>ERROR\<close>.
\<close>

definition plain_only :: "('v, 'n::{zero,one}) world \<Rightarrow> bool" where
  "plain_only w \<longleftrightarrow>
     (\<forall>x\<in>set (inputs (ldr w)). \<exists>a. x = Plain a) \<and>
     (\<forall>b\<in>set (branches (ldr w)). \<exists>pr. b = BLoad pr \<and> pr < length (promises w)) \<and>
     (\<forall>s\<in>set (promises w). s = Pending \<or> s = Fulfilled) \<and>
     (\<forall>j. l_promise (ldr w) = Some j \<longrightarrow> j < length (promises w)) \<and>
     l_error (ldr w) = None \<and>
     (\<forall>e\<in>set (trace w). e_target e = TLoader \<longrightarrow> e_status e \<noteq> ERROR)"

section \<open>Example worlds\<close>

text \<open>
  An environment whose arithmetic is exact, on the rationals: no rounding and no
  \<^verbatim>\<open>NaN\<close>, and only 0 counts as false.
\<close>

definition exact :: "(nat \<Rightarrow> Status \<Rightarrow> (target \<times> nat) list) \<Rightarrow> rat environment" where
  "exact r = \<lparr>reaction = r, num_add = (+), num_div = (\<lambda>x k. x / of_nat k), num_falsy = (\<lambda>x. x = 0)\<rparr>"

text \<open>
  Numbers with \<^verbatim>\<open>NaN\<close>, and an environment whose arithmetic is exact on the other
  values: \<^verbatim>\<open>NaN\<close> added to anything is \<^verbatim>\<open>NaN\<close>, and \<^verbatim>\<open>NaN\<close> and 0 count as
  false. The type has no infinities: the quotient by a length of 0, which the loader
  never forms, is left at \<^verbatim>\<open>NaN\<close>.
\<close>

datatype number = Num rat | NaN

instantiation number :: "{zero, one}"
begin

definition zero_number :: number where
  "zero_number = Num 0"

definition one_number :: number where
  "one_number = Num 1"

instance ..

end

fun nan_add :: "number \<Rightarrow> number \<Rightarrow> number" where
  "nan_add (Num x) (Num y) = Num (x + y)"
| "nan_add x y = NaN"

fun nan_div :: "number \<Rightarrow> nat \<Rightarrow> number" where
  "nan_div (Num x) k = (if k = 0 then NaN else Num (x / of_nat k))"
| "nan_div NaN k = NaN"

definition with_nan :: "(nat \<Rightarrow> Status \<Rightarrow> (target \<times> nat) list) \<Rightarrow> number environment" where
  "with_nan r =
     \<lparr>reaction = r, num_add = nan_add, num_div = nan_div, num_falsy = (\<lambda>x. x = NaN \<or> x = Num 0)\<rparr>"

text \<open>Observers that never unsubscribe anything.\<close>

definition onlookers :: "rat environment" where
  "onlookers = exact (\<lambda>n s. [])"

definition nan_onlookers :: "number environment" where
  "nan_onlookers = with_nan (\<lambda>n s. [])"

text \<open>
  One asset whose load function returns a promise, with observers 1, 2 and 3 subscribed
  to the asset and to the loader, in this order. Observer 1, when called, unsubscribes
  itself and observer 2 from both.
\<close>

definition w_three :: "(string, rat) world" where
  "w_three =
     run onlookers
       [CallSubscribe (TAsset 0) 1, CallSubscribe (TAsset 0) 2, CallSubscribe (TAsset 0) 3,
        CallSubscribe TLoader 1, CallSubscribe TLoader 2, CallSubscribe TLoader 3]
       (init [asset (\<lambda>k. Call [] ReturnsPromise) None] [Plain 0])"

definition leavers :: "rat environment" where
  "leavers = exact (\<lambda>n s. if n = 1 then [(TAsset 0, 1), (TAsset 0, 2), (TLoader, 1), (TLoader, 2)] else [])"

text \<open>
  One asset, watched by observer 1. Its load function reports progress one half and then
  returns \<open>''done''\<close> (\<open>w_sync\<close>), throws \<open>Error ''x''\<close> (\<open>w_throw\<close>), or returns a
  promise (\<open>w_async\<close>).
\<close>

definition w_sync :: "(string, rat) world" where
  "w_sync = run onlookers [CallSubscribe (TAsset 0) 1]
     (init [asset (\<lambda>k. Call [1 / 2] (Returns (Some ''done''))) None] [])"

definition w_throw :: "(string, rat) world" where
  "w_throw = run onlookers [CallSubscribe (TAsset 0) 1]
     (init [asset (\<lambda>k. Call [1 / 2] (Throws (Error ''x''))) None] [])"

definition w_async :: "(string, rat) world" where
  "w_async = run onlookers [CallSubscribe (TAsset 0) 1]
     (init [asset (\<lambda>k. Call [1 / 2] ReturnsPromise) None] [])"

text \<open>
  A loader over two plain assets, watched by observer 7. The load function of the
  first returns \<open>''a''\<close> at once; the second returns a promise.
\<close>

definition w_pair :: "(string, rat) world" where
  "w_pair = run onlookers [CallSubscribe TLoader 7]
     (init [asset (\<lambda>k. Call [] (Returns (Some ''a''))) None,
            asset (\<lambda>k. Call [] ReturnsPromise) None] [Plain 0, Plain 1])"

text \<open>A loader over one asset whose id is the empty string.\<close>

definition w_blank :: "(string, rat) world" where
  "w_blank = init [asset (\<lambda>k. Call [] ReturnsPromise) (Some [])] [Plain 0]"

text \<open>
  A loader over three assets, the first and the last with the id \<open>''k''\<close>, and a
  factory.
\<close>

definition w_ids :: "(string, rat) world" where
  "w_ids = init [asset (\<lambda>k. Call [] ReturnsPromise) (Some ''k''),
                 asset (\<lambda>k. Call [] ReturnsPromise) None,
                 asset (\<lambda>k. Call [] ReturnsPromise) (Some ''k'')] [Plain 0, Factory 0, Plain 1]"

text \<open>
  The scenario of a loader over two plain assets, the loader watched by observer 7 and
  both assets by observer 8; \<open>c0\<close> and \<open>c1\<close> are what the two load functions do.
  \<open>summary k\<close> collects what the scenario asks about when asset \<open>k\<close> is the one that
  fails: the loader's \<^verbatim>\<open>error\<close> and \<^verbatim>\<open>loading\<close> variables, the state of the
  promise of \<^verbatim>\<open>start\<close>, the statuses observer 7 received from the loader, the
  \<^verbatim>\<open>error\<close> variable of asset \<open>k\<close> and the statuses observer 8 received from it.
\<close>

definition two_assets :: "('v, rat) call \<Rightarrow> ('v, rat) call \<Rightarrow> ('v, rat) world" where
  "two_assets c0 c1 =
     run onlookers [CallSubscribe TLoader 7, CallSubscribe (TAsset 0) 8, CallSubscribe (TAsset 1) 8]
       (init [asset (\<lambda>k. c0) None, asset (\<lambda>k. c1) None] [Plain 0, Plain 1])"

definition summary ::
  "nat \<Rightarrow> ('v, 'n::{zero,one}) world \<Rightarrow> error option \<times> bool \<times> pstate option \<times> Status list \<times> error option \<times> Status list" where
  "summary k w =
     (l_error (ldr w), l_loading (ldr w),
      map_option (\<lambda>j. promises w ! j) (l_promise (ldr w)),
      map fst (view TLoader 7 w), a_error (store w ! k), map fst (view (TAsset k) 8 w))"

text \<open>
  A loader over two plain assets whose load functions return promises, with numbers
  that include \<^verbatim>\<open>NaN\<close>.
\<close>

definition w_nan :: "(string, number) world" where
  "w_nan = init [asset (\<lambda>k. Call [] ReturnsPromise) None,
                 asset (\<lambda>k. Call [] ReturnsPromise) None] [Plain 0, Plain 1]"

section \<open>Facts about the subscriber Set\<close>

lemma shrinks_refl: "shrinks xs xs"
  by (simp add: shrinks_def)

lemma shrinks_trans: "shrinks xs ys \<Longrightarrow> shrinks ys zs \<Longrightarrow> shrinks xs zs"
  unfolding shrinks_def by (metis)

lemma shrinks_length: "shrinks xs ys \<Longrightarrow> length ys = length xs"
  by (simp add: shrinks_def)

lemma shrinks_nth: "shrinks xs ys \<Longrightarrow> i < length xs \<Longrightarrow> ys ! i = Some c \<Longrightarrow> xs ! i = Some c"
  unfolding shrinks_def by (metis option.distinct(1))

lemma shrinks_mem: "shrinks xs ys \<Longrightarrow> Some c \<in> set ys \<Longrightarrow> Some c \<in> set xs"
  unfolding shrinks_def in_set_conv_nth by (metis option.distinct(1))

lemma shrinks_set_delete: "shrinks xs (set_delete c xs)"
  by (simp add: shrinks_def set_delete_def)

lemma distinct_entries_nth:
  "distinct_entries xs \<Longrightarrow> i < length xs \<Longrightarrow> j < length xs \<Longrightarrow> xs ! i = Some c \<Longrightarrow> xs ! j = Some c \<Longrightarrow> i = j"
proof (induction xs arbitrary: i j)
  case Nil
  then show ?case by simp
next
  case (Cons x xs)
  show ?case
  proof (cases i)
    case 0
    show ?thesis
    proof (cases j)
      case 0
      with \<open>i = 0\<close> show ?thesis by simp
    next
      case (Suc j')
      with 0 Cons.prems have "x = Some c" "Some c \<in> set xs" by (auto simp: in_set_conv_nth)
      with Cons.prems(1) show ?thesis by (simp add: distinct_entries_def)
    qed
  next
    case (Suc i')
    show ?thesis
    proof (cases j)
      case 0
      with Suc Cons.prems have "x = Some c" "Some c \<in> set xs" by (auto simp: in_set_conv_nth)
      with Cons.prems(1) show ?thesis by (simp add: distinct_entries_def)
    next
      case (Suc j')
      from Cons.prems(1) have "distinct_entries xs"
        by (simp add: distinct_entries_def split: if_splits)
      with Cons.IH[of i' j'] Cons.prems Suc \<open>i = Suc i'\<close> show ?thesis by simp
    qed
  qed
qed

lemma distinct_entries_shrinks:
  "shrinks xs ys \<Longrightarrow> distinct_entries xs \<Longrightarrow> distinct_entries ys"
proof (induction xs arbitrary: ys)
  case Nil
  then show ?case by (simp add: shrinks_def distinct_entries_def)
next
  case (Cons x xs)
  from Cons.prems(1) obtain y ys' where ys: "ys = y # ys'"
    by (cases ys) (auto simp: shrinks_def)
  from Cons.prems(1) ys have hd: "y = x \<or> y = None" and tl: "shrinks xs ys'"
    unfolding shrinks_def by (auto simp: nth_Cons split: nat.splits) 
  from Cons.prems(2) have dx: "distinct_entries xs"
    by (simp add: distinct_entries_def split: if_splits)
  have dy: "distinct_entries ys'" using Cons.IH[OF tl dx] .
  show ?case
  proof (cases y)
    case None
    with dy ys show ?thesis by (simp add: distinct_entries_def)
  next
    case (Some c)
    with hd have "x = Some c" by simp
    with Cons.prems(2) have "Some c \<notin> set xs" by (simp add: distinct_entries_def)
    with tl have "Some c \<notin> set ys'" using shrinks_mem by metis
    with dy ys Some show ?thesis by (simp add: distinct_entries_def)
  qed
qed

lemma distinct_entries_set_add: "distinct_entries xs \<Longrightarrow> distinct_entries (set_add c xs)"
  by (simp add: distinct_entries_def set_add_def)

lemma forEach_visit: "forEach entries f w = fold (visit entries f) [0..<length (entries w)] w"
  by (simp add: forEach_def visit_def[abs_def])

lemma fold_visit_rel:
  assumes step: "\<And>c w. R w (f c w)" and refl: "\<And>w. R w w"
    and trans: "\<And>u v w. R u v \<Longrightarrow> R v w \<Longrightarrow> R u w"
  shows "R w (fold (visit entries f) ixs w)"
proof (induction ixs arbitrary: w)
  case Nil
  show ?case by (simp add: refl)
next
  case (Cons i ixs)
  have "R w (visit entries f i w)"
    by (simp add: visit_def refl step split: option.splits)
  then show ?case using Cons.IH trans by fastforce
qed

lemma forEach_rel:
  assumes "\<And>c w. R w (f c w)" and "\<And>w. R w w"
    and "\<And>u v w. R u v \<Longrightarrow> R v w \<Longrightarrow> R u w"
  shows "R w (forEach entries f w)"
  unfolding forEach_visit using assms by (rule fold_visit_rel)

lemma fold_visit_shrinks:
  assumes "\<And>c w. shrinks (entries w) (entries (f c w))"
  shows "shrinks (entries w) (entries (fold (visit entries f) ixs w))"
  by (rule fold_visit_rel[where R = "\<lambda>w w'. shrinks (entries w) (entries w')"])
     (auto intro: assms shrinks_refl shrinks_trans)

lemma fold_visit_absent:
  assumes shr: "\<And>c w. shrinks (entries w) (entries (f c w))"
    and other: "\<And>c w. c \<noteq> cb \<Longrightarrow> tr (f c w) = tr w"
  shows "\<forall>i\<in>set ixs. i < length (entries w) \<and> entries w ! i \<noteq> Some cb \<Longrightarrow>
     tr (fold (visit entries f) ixs w) = tr w"
proof (induction ixs arbitrary: w)
  case Nil
  show ?case by simp
next
  case (Cons i ixs)
  let ?w1 = "visit entries f i w"
  have s1: "shrinks (entries w) (entries ?w1)"
    by (simp add: visit_def shr shrinks_refl split: option.splits)
  have t1: "tr ?w1 = tr w"
    using Cons.prems by (auto simp: visit_def other split: option.splits)
  have "\<forall>k\<in>set ixs. k < length (entries ?w1) \<and> entries ?w1 ! k \<noteq> Some cb"
    using Cons.prems s1 shrinks_nth[OF s1] by (auto simp: shrinks_length)
  from Cons.IH[OF this] t1 show ?case by simp
qed

lemma fold_visit_once:
  assumes shr: "\<And>c w. shrinks (entries w) (entries (f c w))"
    and other: "\<And>c w. c \<noteq> cb \<Longrightarrow> tr (f c w) = tr w"
    and self: "\<And>w. tr (f cb w) = tr w @ [ent w]"
    and ent: "\<And>c w. ent (f c w) = ent w"
  shows "distinct_entries (entries w) \<Longrightarrow> distinct ixs \<Longrightarrow> \<forall>i\<in>set ixs. i < length (entries w) \<Longrightarrow>
     j < length (entries w) \<Longrightarrow> entries (fold (visit entries f) ixs w) ! j = Some cb \<Longrightarrow>
     tr (fold (visit entries f) ixs w) = tr w @ (if j \<in> set ixs then [ent w] else [])"
proof (induction ixs arbitrary: w)
  case Nil
  show ?case by simp
next
  case (Cons i ixs)
  let ?w1 = "visit entries f i w"
  let ?w2 = "fold (visit entries f) ixs ?w1"
  have s1: "shrinks (entries w) (entries ?w1)"
    by (simp add: visit_def shr shrinks_refl split: option.splits)
  have s2: "shrinks (entries ?w1) (entries ?w2)"
    by (rule fold_visit_shrinks) (rule shr)
  have len1: "length (entries ?w1) = length (entries w)"
    using s1 by (rule shrinks_length)
  from Cons.prems(5) have fin: "entries ?w2 ! j = Some cb" by simp
  have j1: "entries ?w1 ! j = Some cb"
    using shrinks_nth[OF s2 _ fin] Cons.prems(4) len1 by simp
  have j0: "entries w ! j = Some cb"
    using shrinks_nth[OF s1 Cons.prems(4) j1] .
  have e1: "ent ?w1 = ent w"
    by (simp add: visit_def ent split: option.splits)
  have ih: "tr ?w2 = tr ?w1 @ (if j \<in> set ixs then [ent ?w1] else [])"
    using Cons.IH[of ?w1] distinct_entries_shrinks[OF s1 Cons.prems(1)] Cons.prems(2,3,4) len1 fin
    by simp
  show ?case
  proof (cases "i = j")
    case True
    then have "tr ?w1 = tr w @ [ent w]" using j0 by (simp add: visit_def self)
    moreover have "j \<notin> set ixs" using Cons.prems(2) True by simp
    ultimately show ?thesis using ih True by simp
  next
    case False
    have "entries w ! i \<noteq> Some cb"
      using distinct_entries_nth[OF Cons.prems(1) _ Cons.prems(4) _ j0, of i] False Cons.prems(3)
      by auto
    then have "tr ?w1 = tr w" by (auto simp: visit_def other split: option.splits)
    then show ?thesis using ih e1 False by simp
  qed
qed

lemma fold_visit_at_most_once:
  assumes shr: "\<And>c w. shrinks (entries w) (entries (f c w))"
    and other: "\<And>c w. c \<noteq> cb \<Longrightarrow> tr (f c w) = tr w"
    and self: "\<And>w. tr (f cb w) = tr w @ [ent w]"
    and ent: "\<And>c w. ent (f c w) = ent w"
  shows "distinct_entries (entries w) \<Longrightarrow> distinct ixs \<Longrightarrow> \<forall>i\<in>set ixs. i < length (entries w) \<Longrightarrow>
     tr (fold (visit entries f) ixs w) = tr w \<or> tr (fold (visit entries f) ixs w) = tr w @ [ent w]"
proof (induction ixs arbitrary: w)
  case Nil
  show ?case by simp
next
  case (Cons i ixs)
  let ?w1 = "visit entries f i w"
  have s1: "shrinks (entries w) (entries ?w1)"
    by (simp add: visit_def shr shrinks_refl split: option.splits)
  have len1: "length (entries ?w1) = length (entries w)"
    using s1 by (rule shrinks_length)
  show ?case
  proof (cases "entries w ! i = Some cb")
    case True
    then have t1: "tr ?w1 = tr w @ [ent w]" by (simp add: visit_def self)
    have "\<forall>k\<in>set ixs. k < length (entries ?w1) \<and> entries ?w1 ! k \<noteq> Some cb"
    proof
      fix k assume k: "k \<in> set ixs"
      then have kl: "k < length (entries w)" and ki: "k \<noteq> i" using Cons.prems(2,3) by auto
      have "entries w ! k \<noteq> Some cb"
        using distinct_entries_nth[OF Cons.prems(1) kl _ _ True] ki Cons.prems(3) by auto
      then have "entries ?w1 ! k \<noteq> Some cb" using shrinks_nth[OF s1 kl] by auto
      then show "k < length (entries ?w1) \<and> entries ?w1 ! k \<noteq> Some cb" using kl len1 by simp
    qed
    from fold_visit_absent[where tr = tr, OF shr other this] t1 show ?thesis by simp
  next
    case False
    then have t1: "tr ?w1 = tr w" by (auto simp: visit_def other split: option.splits)
    have "tr (fold (visit entries f) ixs ?w1) = tr ?w1 \<or>
          tr (fold (visit entries f) ixs ?w1) = tr ?w1 @ [ent ?w1]"
      using Cons.IH[of ?w1] distinct_entries_shrinks[OF s1 Cons.prems(1)] Cons.prems(2,3) len1 by simp
    moreover have "ent ?w1 = ent w" by (simp add: visit_def ent split: option.splits)
    ultimately show ?thesis using t1 by auto
  qed
qed

section \<open>Notifications change little\<close>

lemma store_upd_asset [simp]: "store (upd_asset a f w) = (store w)[a := f (store w ! a)]"
  and ldr_upd_asset [simp]: "ldr (upd_asset a f w) = ldr w"
  and promises_upd_asset [simp]: "promises (upd_asset a f w) = promises w"
  and results_upd_asset [simp]: "results (upd_asset a f w) = results w"
  and trace_upd_asset [simp]: "trace (upd_asset a f w) = trace w"
  by (simp_all add: upd_asset_def)

lemma store_upd_loader [simp]: "store (upd_loader f w) = store w"
  and ldr_upd_loader [simp]: "ldr (upd_loader f w) = f (ldr w)"
  and promises_upd_loader [simp]: "promises (upd_loader f w) = promises w"
  and results_upd_loader [simp]: "results (upd_loader f w) = results w"
  and trace_upd_loader [simp]: "trace (upd_loader f w) = trace w"
  by (simp_all add: upd_loader_def)

lemma store_fulfil [simp]: "store (fulfil pr w) = store w"
  and ldr_fulfil [simp]: "ldr (fulfil pr w) = ldr w"
  and promises_fulfil [simp]: "promises (fulfil pr w) = (promises w)[pr := Fulfilled]"
  and results_fulfil [simp]: "results (fulfil pr w) = results w"
  and trace_fulfil [simp]: "trace (fulfil pr w) = trace w"
  by (simp_all add: fulfil_def)

lemma nth_upd_store:
  "b < length xs \<Longrightarrow> (xs[a := f (xs ! a)]) ! b = (if b = a then f (xs ! b) else xs ! b)"
  by (cases "a = b") simp_all

lemma quiet_refl: "quiet P w w"
  by (simp add: quiet_def shrinks_refl)

lemma quiet_trans:
  assumes "quiet P u v" and "quiet P v w"
  shows "quiet P u w"
proof -
  from assms have len: "length (store v) = length (store u)" "length (store w) = length (store v)"
    by (simp_all add: quiet_def)
  have assets: "\<forall>b<length (store u). core (store w ! b) = core (store u ! b) \<and>
        shrinks (a_subscribers (store u ! b)) (a_subscribers (store w ! b))"
  proof (intro allI impI)
    fix b assume b: "b < length (store u)"
    with assms len have
      "core (store v ! b) = core (store u ! b)" "core (store w ! b) = core (store v ! b)"
      "shrinks (a_subscribers (store u ! b)) (a_subscribers (store v ! b))"
      "shrinks (a_subscribers (store v ! b)) (a_subscribers (store w ! b))"
      by (simp_all add: quiet_def)
    then show "core (store w ! b) = core (store u ! b) \<and>
        shrinks (a_subscribers (store u ! b)) (a_subscribers (store w ! b))"
      using shrinks_trans by auto
  qed
  from assms obtain n1 n2 where
    "trace v = trace u @ n1" "\<forall>e\<in>set n1. P e" "trace w = trace v @ n2" "\<forall>e\<in>set n2. P e"
    unfolding quiet_def by blast
  then have tr: "\<exists>new. trace w = trace u @ new \<and> (\<forall>e\<in>set new. P e)"
    by (intro exI[of _ "n1 @ n2"]) auto
  from assms have "shrinks (l_subscribers (ldr u)) (l_subscribers (ldr w))"
    unfolding quiet_def using shrinks_trans by blast
  moreover from assms have "lcore (ldr w) = lcore (ldr u)" "promises w = promises u"
    "results w = results u"
    by (simp_all add: quiet_def)
  ultimately show ?thesis using len assets tr unfolding quiet_def by simp
qed

lemma quiet_mono: "quiet P w w' \<Longrightarrow> (\<And>e. P e \<Longrightarrow> Q e) \<Longrightarrow> quiet Q w w'"
  unfolding quiet_def by blast

lemma quiet_unsubscribe: "quiet P w (unsubscribe t n w)"
proof (cases t)
  case (TAsset a)
  show ?thesis
    unfolding TAsset quiet_def
    by (auto simp: nth_upd_store core_def shrinks_refl shrinks_set_delete)
next
  case TLoader
  show ?thesis
    unfolding TLoader quiet_def
    by (auto simp: lcore_def shrinks_refl shrinks_set_delete)
qed

lemma quiet_fold_unsubscribe: "quiet P w (fold (\<lambda>(t, m). unsubscribe t m) us w)"
proof (induction us arbitrary: w)
  case Nil
  show ?case by (simp add: quiet_refl)
next
  case (Cons u us)
  obtain t m where u: "u = (t, m)" by (cases u)
  have "quiet P w (unsubscribe t m w)" by (rule quiet_unsubscribe)
  with Cons.IH[of "unsubscribe t m w"] show ?case
    unfolding u by (auto intro: quiet_trans)
qed

lemma trace_fold_unsubscribe: "trace (fold (\<lambda>(t, m). unsubscribe t m) us w) = trace w"
  using quiet_fold_unsubscribe[of "\<lambda>_. False" w us] by (auto simp: quiet_def)

lemma trace_notify: "trace (notify env t n s w) = trace w @ [snapshot t n s w]"
  by (simp add: notify_def trace_fold_unsubscribe)

lemma quiet_notify:
  "quiet (\<lambda>e. e_target e = t \<and> e_observer e = n \<and> e_status e = s) w (notify env t n s w)"
proof -
  let ?P = "\<lambda>e. e_target e = t \<and> e_observer e = n \<and> e_status e = s"
  let ?w1 = "w\<lparr>trace := trace w @ [snapshot t n s w]\<rparr>"
  have "quiet ?P w ?w1"
    by (simp add: quiet_def shrinks_refl snapshot_def)
  moreover have "quiet ?P ?w1 (notify env t n s w)"
    unfolding notify_def by (rule quiet_fold_unsubscribe)
  ultimately show ?thesis by (rule quiet_trans)
qed

lemma l_progress_unsubscribe: "l_progress (ldr (unsubscribe t n w)) = l_progress (ldr w)"
  by (cases t) simp_all

lemma l_progress_notify:
  fixes w :: "('v, 'n::{zero,one}) world"
  shows "l_progress (ldr (notify env t n s w)) = l_progress (ldr w)"
proof -
  have "l_progress (ldr (fold (\<lambda>(t, m). unsubscribe t m) us v)) = l_progress (ldr v)" for us and v :: "('v, 'n::{zero,one}) world"
    by (induction us arbitrary: v) (auto simp: l_progress_unsubscribe)
  then show ?thesis by (simp add: notify_def)
qed

lemma quiet_loader_broadcast:
  fixes w :: "('v, 'n::{zero,one}) world"
  shows "quiet (\<lambda>e. e_target e = TLoader \<and> e_status e = s) w (loader_broadcast env s w)"
  unfolding loader_broadcast_def
proof (rule forEach_rel[where R = "quiet (\<lambda>e. e_target e = TLoader \<and> e_status e = s)"])
  fix c and w :: "('v, 'n::{zero,one}) world"
  show "quiet (\<lambda>e. e_target e = TLoader \<and> e_status e = s) w (notify env TLoader c s w)"
    by (rule quiet_mono[OF quiet_notify]) simp
qed (auto intro: quiet_refl quiet_trans)

lemma l_progress_loader_broadcast:
  "l_progress (ldr (loader_broadcast env s w)) = l_progress (ldr w)"
  unfolding loader_broadcast_def
  by (rule forEach_rel[where R = "\<lambda>w w'. l_progress (ldr w') = l_progress (ldr w)"])
     (simp_all add: l_progress_notify)

lemma quiet_loader_updateProgress:
  "quiet (\<lambda>e. e_target e = TLoader \<and> e_status e = PROGRESS) w (loader_updateProgress env w)"
proof -
  let ?P = "\<lambda>e. e_target e = TLoader \<and> e_status e = PROGRESS"
  have "quiet ?P w (upd_loader (\<lambda>l. l\<lparr>l_progress := x\<rparr>) w)" for x
    by (simp add: quiet_def shrinks_refl lcore_def)
  then show ?thesis
    unfolding loader_updateProgress_def Let_def
    by (rule quiet_trans) (rule quiet_loader_broadcast)
qed

lemma quiet_invoke:
  "quiet (\<lambda>e. e_target e = TLoader \<and> e_status e = PROGRESS \<or>
              e_target e = TAsset a \<and> e_status e = s) w (invoke env a s c w)"
proof (cases c)
  case (Observer n)
  show ?thesis unfolding Observer invoke.simps
    by (rule quiet_mono[OF quiet_notify]) simp
next
  case LoaderUpdateProgress
  show ?thesis unfolding LoaderUpdateProgress invoke.simps
    by (rule quiet_mono[OF quiet_loader_updateProgress]) simp
qed

lemma quiet_broadcast:
  "quiet (\<lambda>e. e_target e = TLoader \<and> e_status e = PROGRESS \<or>
              e_target e = TAsset a \<and> e_status e = s) w (broadcast env a s w)"
  unfolding broadcast_def
  by (rule forEach_rel[where R = "quiet (\<lambda>e. e_target e = TLoader \<and> e_status e = PROGRESS \<or>
              e_target e = TAsset a \<and> e_status e = s)"])
     (auto intro: quiet_invoke quiet_refl quiet_trans)

section \<open>What observers hear from a broadcast\<close>

lemma core_fields:
  "a_loader (core s) = a_loader s" "options_id (core s) = options_id s"
  "a_data (core s) = a_data s" "a_error (core s) = a_error s"
  "a_promise (core s) = a_promise s" "a_loading (core s) = a_loading s"
  "a_p (core s) = a_p s" "pub_error (core s) = pub_error s"
  "pub_loading (core s) = pub_loading s" "pub_promise (core s) = pub_promise s"
  "a_calls (core s) = a_calls s" "a_awaiting (core s) = a_awaiting s"
  by (simp_all add: core_def)

lemma nth_beyond: "length xs = length ys \<Longrightarrow> length xs \<le> i \<Longrightarrow> xs ! i = ys ! i"
proof (induction xs arbitrary: ys i)
  case Nil
  then show ?case by simp
next
  case (Cons x xs)
  then obtain y ys' where "ys = y # ys'" by (cases ys) auto
  moreover from Cons.prems obtain i' where "i = Suc i'" by (cases i) auto
  ultimately show ?case using Cons by simp
qed

lemma quiet_beyond:
  assumes "quiet P w w'" and "length (store w) \<le> b"
  shows "store w' ! b = store w ! b"
  using assms nth_beyond[of "store w'" "store w" b] by (simp add: quiet_def)

lemma quiet_core:
  assumes "quiet P w w'"
  shows "core (store w' ! b) = core (store w ! b)"
proof (cases "b < length (store w)")
  case True
  with assms show ?thesis by (simp add: quiet_def)
next
  case False
  then show ?thesis using quiet_beyond[OF assms, of b] by simp
qed

lemma quiet_length: "quiet P w w' \<Longrightarrow> length (store w') = length (store w)"
  by (simp add: quiet_def)

lemma quiet_fields:
  assumes "quiet P w w'"
  shows "a_loader (store w' ! b) = a_loader (store w ! b)"
    and "options_id (store w' ! b) = options_id (store w ! b)"
    and "a_data (store w' ! b) = a_data (store w ! b)"
    and "a_error (store w' ! b) = a_error (store w ! b)"
    and "a_promise (store w' ! b) = a_promise (store w ! b)"
    and "a_loading (store w' ! b) = a_loading (store w ! b)"
    and "a_p (store w' ! b) = a_p (store w ! b)"
    and "pub_error (store w' ! b) = pub_error (store w ! b)"
    and "pub_loading (store w' ! b) = pub_loading (store w ! b)"
    and "pub_promise (store w' ! b) = pub_promise (store w ! b)"
    and "a_calls (store w' ! b) = a_calls (store w ! b)"
    and "a_awaiting (store w' ! b) = a_awaiting (store w ! b)"
  using quiet_core[OF assms] core_fields by metis+

lemma quiet_progresses:
  assumes "quiet P w w'"
  shows "map a_p (store w') = map a_p (store w)"
  by (rule nth_equalityI) (simp_all add: quiet_length[OF assms] quiet_fields[OF assms])

lemma quiet_subs:
  assumes "quiet P w w'"
  shows "shrinks (a_subscribers (store w ! b)) (a_subscribers (store w' ! b))"
proof (cases "b < length (store w)")
  case True
  with assms show ?thesis by (simp add: quiet_def)
next
  case False
  then show ?thesis using quiet_beyond[OF assms, of b] by (simp add: shrinks_refl)
qed

lemma quiet_lsubs: "quiet P w w' \<Longrightarrow> shrinks (l_subscribers (ldr w)) (l_subscribers (ldr w'))"
  by (simp add: quiet_def)

lemma lcore_fields:
  "inputs (lcore l) = inputs l" "l_assets (lcore l) = l_assets l"
  "mapOfAssetsWithID (lcore l) = mapOfAssetsWithID l" "l_promise (lcore l) = l_promise l"
  "l_loading (lcore l) = l_loading l" "l_error (lcore l) = l_error l"
  "pub_l_loading (lcore l) = pub_l_loading l" "pub_l_error (lcore l) = pub_l_error l"
  "branches (lcore l) = branches l" "joined (lcore l) = joined l"
  "factory_calls (lcore l) = factory_calls l"
  by (simp_all add: lcore_def)

lemma quiet_loader_fields:
  assumes "quiet P w w'"
  shows "inputs (ldr w') = inputs (ldr w)"
    and "l_assets (ldr w') = l_assets (ldr w)"
    and "mapOfAssetsWithID (ldr w') = mapOfAssetsWithID (ldr w)"
    and "l_promise (ldr w') = l_promise (ldr w)"
    and "l_loading (ldr w') = l_loading (ldr w)"
    and "l_error (ldr w') = l_error (ldr w)"
    and "pub_l_loading (ldr w') = pub_l_loading (ldr w)"
    and "pub_l_error (ldr w') = pub_l_error (ldr w)"
    and "branches (ldr w') = branches (ldr w)"
    and "joined (ldr w') = joined (ldr w)"
    and "factory_calls (ldr w') = factory_calls (ldr w)"
proof -
  from assms have "lcore (ldr w') = lcore (ldr w)" by (simp add: quiet_def)
  then show "inputs (ldr w') = inputs (ldr w)"
    and "l_assets (ldr w') = l_assets (ldr w)"
    and "mapOfAssetsWithID (ldr w') = mapOfAssetsWithID (ldr w)"
    and "l_promise (ldr w') = l_promise (ldr w)"
    and "l_loading (ldr w') = l_loading (ldr w)"
    and "l_error (ldr w') = l_error (ldr w)"
    and "pub_l_loading (ldr w') = pub_l_loading (ldr w)"
    and "pub_l_error (ldr w') = pub_l_error (ldr w)"
    and "branches (ldr w') = branches (ldr w)"
    and "joined (ldr w') = joined (ldr w)"
    and "factory_calls (ldr w') = factory_calls (ldr w)"
    using lcore_fields by metis+
qed

lemma quiet_promises: "quiet P w w' \<Longrightarrow> promises w' = promises w"
  and quiet_results: "quiet P w w' \<Longrightarrow> results w' = results w"
  by (simp_all add: quiet_def)

lemma quiet_sets_ok:
  assumes "quiet P w w'" and "sets_ok w"
  shows "sets_ok w'"
  using assms(2) distinct_entries_shrinks[OF quiet_subs[OF assms(1)]]
    distinct_entries_shrinks[OF quiet_lsubs[OF assms(1)]]
  unfolding sets_ok_def list_all_length by (simp add: quiet_length[OF assms(1)])

lemma quiet_heard_other:
  assumes "quiet P w w'" and "\<And>e. P e \<Longrightarrow> \<not> (e_target e = t \<and> e_observer e = n)"
  shows "heard t n w' = heard t n w"
proof -
  from assms(1) obtain new where "trace w' = trace w @ new" "\<forall>e\<in>set new. P e"
    unfolding quiet_def by blast
  then show ?thesis using assms(2) by (auto simp: heard_def filter_empty_conv)
qed

lemma heard_notify:
  "heard t n (notify env t' m s w) =
     heard t n w @ (if t' = t \<and> m = n then [snapshot t n s w] else [])"
  by (auto simp: heard_def trace_notify snapshot_def)

lemma snapshot_asset_quiet:
  assumes "quiet P w w'"
  shows "snapshot (TAsset a) n s w' = snapshot (TAsset a) n s w"
  by (simp add: snapshot_def quiet_fields[OF assms] quiet_progresses[OF assms])

lemma snapshot_loader_notify:
  "snapshot TLoader n s (notify env t m s' w) = snapshot TLoader n s w"
  by (simp add: snapshot_def quiet_loader_fields[OF quiet_notify] quiet_progresses[OF quiet_notify]
      l_progress_notify)

text \<open>Exactly once, for the loader's broadcast.\<close>

lemma loader_broadcast_once:
  fixes w :: "('v, 'n::{zero,one}) world"
  assumes ok: "distinct_entries (l_subscribers (ldr w))"
    and still: "subscribed TLoader n (loader_broadcast env s w)"
  shows "heard TLoader n (loader_broadcast env s w) = heard TLoader n w @ [snapshot TLoader n s w]"
proof -
  let ?entries = "\<lambda>w :: ('v, 'n::{zero,one}) world. l_subscribers (ldr w)"
  let ?f = "\<lambda>m. notify env TLoader m s"
  let ?ixs = "[0..<length (?entries w)]"
  from still obtain j where j: "j < length (?entries (loader_broadcast env s w))"
    "?entries (loader_broadcast env s w) ! j = Some n"
    by (auto simp: in_set_conv_nth)
  have len: "length (?entries (loader_broadcast env s w)) = length (?entries w)"
    using quiet_lsubs[OF quiet_loader_broadcast] by (rule shrinks_length)
  have "heard TLoader n (fold (visit ?entries ?f) ?ixs w) =
      heard TLoader n w @ (if j \<in> set ?ixs then [snapshot TLoader n s w] else [])"
  proof (rule fold_visit_once[where tr = "heard TLoader n" and ent = "snapshot TLoader n s" and cb = n])
    show "shrinks (?entries w) (?entries (?f c w))" for c and w :: "('v, 'n::{zero,one}) world"
      using quiet_lsubs[OF quiet_notify] .
    show "c \<noteq> n \<Longrightarrow> heard TLoader n (?f c w) = heard TLoader n w" for c and w :: "('v, 'n::{zero,one}) world"
      by (simp add: heard_notify)
    show "heard TLoader n (?f n w) = heard TLoader n w @ [snapshot TLoader n s w]" for w :: "('v, 'n::{zero,one}) world"
      by (simp add: heard_notify)
    show "snapshot TLoader n s (?f c w) = snapshot TLoader n s w" for c and w :: "('v, 'n::{zero,one}) world"
      by (rule snapshot_loader_notify)
    show "distinct_entries (?entries w)" by (rule ok)
    show "distinct ?ixs" by simp
    show "\<forall>i\<in>set ?ixs. i < length (?entries w)" by simp
    show "j < length (?entries w)" using j len by simp
    show "?entries (fold (visit ?entries ?f) ?ixs w) ! j = Some n"
      using j by (simp add: loader_broadcast_def forEach_visit)
  qed
  then show ?thesis using j len by (simp add: loader_broadcast_def forEach_visit)
qed


lemma loader_broadcast_at_most_once:
  fixes w :: "('v, 'n::{zero,one}) world"
  assumes ok: "distinct_entries (l_subscribers (ldr w))"
  shows "heard TLoader n (loader_broadcast env s w) = heard TLoader n w \<or>
         heard TLoader n (loader_broadcast env s w) = heard TLoader n w @ [snapshot TLoader n s w]"
  unfolding loader_broadcast_def forEach_visit
proof (rule fold_visit_at_most_once[where tr = "heard TLoader n" and ent = "snapshot TLoader n s" and cb = n])
  show "shrinks (l_subscribers (ldr w)) (l_subscribers (ldr (notify env TLoader c s w)))"
    for c and w :: "('v, 'n::{zero,one}) world"
    using quiet_lsubs[OF quiet_notify] .
  show "c \<noteq> n \<Longrightarrow> heard TLoader n (notify env TLoader c s w) = heard TLoader n w"
    for c and w :: "('v, 'n::{zero,one}) world"
    by (simp add: heard_notify)
  show "heard TLoader n (notify env TLoader n s w) = heard TLoader n w @ [snapshot TLoader n s w]"
    for w :: "('v, 'n::{zero,one}) world"
    by (simp add: heard_notify)
  show "snapshot TLoader n s (notify env TLoader c s w) = snapshot TLoader n s w"
    for c and w :: "('v, 'n::{zero,one}) world"
    by (rule snapshot_loader_notify)
qed (simp_all add: ok)

lemma loader_broadcast_absent:
  fixes w :: "('v, 'n::{zero,one}) world"
  assumes "\<not> subscribed TLoader n w"
  shows "heard TLoader n (loader_broadcast env s w) = heard TLoader n w"
  unfolding loader_broadcast_def forEach_visit
proof (rule fold_visit_absent[where tr = "heard TLoader n" and cb = n])
  show "shrinks (l_subscribers (ldr w)) (l_subscribers (ldr (notify env TLoader c s w)))"
    for c and w :: "('v, 'n::{zero,one}) world"
    using quiet_lsubs[OF quiet_notify] .
  show "c \<noteq> n \<Longrightarrow> heard TLoader n (notify env TLoader c s w) = heard TLoader n w"
    for c and w :: "('v, 'n::{zero,one}) world"
    by (simp add: heard_notify)
  show "\<forall>i\<in>set [0..<length (l_subscribers (ldr w))].
          i < length (l_subscribers (ldr w)) \<and> l_subscribers (ldr w) ! i \<noteq> Some n"
    using assms by (auto simp: in_set_conv_nth)
qed

text \<open>The same three facts for the broadcast of an asset.\<close>

lemma heard_invoke:
  "heard (TAsset a) n (invoke env a s c w) =
     heard (TAsset a) n w @ (if c = Observer n then [snapshot (TAsset a) n s w] else [])"
proof (cases c)
  case (Observer m)
  then show ?thesis by (simp add: heard_notify)
next
  case LoaderUpdateProgress
  have "heard (TAsset a) n (loader_updateProgress env w) = heard (TAsset a) n w"
    by (rule quiet_heard_other[OF quiet_loader_updateProgress]) simp
  then show ?thesis using LoaderUpdateProgress by simp
qed

lemma broadcast_once:
  fixes w :: "('v, 'n::{zero,one}) world"
  assumes ok: "distinct_entries (a_subscribers (store w ! a))"
    and still: "subscribed (TAsset a) n (broadcast env a s w)"
  shows "heard (TAsset a) n (broadcast env a s w) = heard (TAsset a) n w @ [snapshot (TAsset a) n s w]"
proof -
  let ?entries = "\<lambda>w :: ('v, 'n::{zero,one}) world. a_subscribers (store w ! a)"
  let ?f = "invoke env a s"
  let ?ixs = "[0..<length (?entries w)]"
  from still obtain j where j: "j < length (?entries (broadcast env a s w))"
    "?entries (broadcast env a s w) ! j = Some (Observer n)"
    by (auto simp: in_set_conv_nth)
  have len: "length (?entries (broadcast env a s w)) = length (?entries w)"
    using quiet_subs[OF quiet_broadcast] by (rule shrinks_length)
  have "heard (TAsset a) n (fold (visit ?entries ?f) ?ixs w) =
      heard (TAsset a) n w @ (if j \<in> set ?ixs then [snapshot (TAsset a) n s w] else [])"
  proof (rule fold_visit_once[where tr = "heard (TAsset a) n" and ent = "snapshot (TAsset a) n s"
        and cb = "Observer n"])
    show "shrinks (?entries w) (?entries (?f c w))" for c and w :: "('v, 'n::{zero,one}) world"
      using quiet_subs[OF quiet_invoke] .
    show "c \<noteq> Observer n \<Longrightarrow> heard (TAsset a) n (?f c w) = heard (TAsset a) n w"
      for c and w :: "('v, 'n::{zero,one}) world"
      by (simp add: heard_invoke)
    show "heard (TAsset a) n (?f (Observer n) w) = heard (TAsset a) n w @ [snapshot (TAsset a) n s w]"
      for w :: "('v, 'n::{zero,one}) world"
      by (simp add: heard_notify)
    show "snapshot (TAsset a) n s (?f c w) = snapshot (TAsset a) n s w" for c and w :: "('v, 'n::{zero,one}) world"
      using snapshot_asset_quiet[OF quiet_invoke] .
    show "distinct_entries (?entries w)" by (rule ok)
    show "distinct ?ixs" by simp
    show "\<forall>i\<in>set ?ixs. i < length (?entries w)" by simp
    show "j < length (?entries w)" using j len by simp
    show "?entries (fold (visit ?entries ?f) ?ixs w) ! j = Some (Observer n)"
      using j by (simp add: broadcast_def forEach_visit)
  qed
  then show ?thesis using j len by (simp add: broadcast_def forEach_visit)
qed

lemma broadcast_at_most_once:
  fixes w :: "('v, 'n::{zero,one}) world"
  assumes ok: "distinct_entries (a_subscribers (store w ! a))"
  shows "heard (TAsset a) n (broadcast env a s w) = heard (TAsset a) n w \<or>
         heard (TAsset a) n (broadcast env a s w) = heard (TAsset a) n w @ [snapshot (TAsset a) n s w]"
  unfolding broadcast_def forEach_visit
proof (rule fold_visit_at_most_once[where tr = "heard (TAsset a) n"
      and ent = "snapshot (TAsset a) n s" and cb = "Observer n"])
  show "shrinks (a_subscribers (store w ! a)) (a_subscribers (store (invoke env a s c w) ! a))"
    for c and w :: "('v, 'n::{zero,one}) world"
    using quiet_subs[OF quiet_invoke] .
  show "c \<noteq> Observer n \<Longrightarrow> heard (TAsset a) n (invoke env a s c w) = heard (TAsset a) n w"
    for c and w :: "('v, 'n::{zero,one}) world"
    by (simp add: heard_invoke)
  show "heard (TAsset a) n (invoke env a s (Observer n) w) =
          heard (TAsset a) n w @ [snapshot (TAsset a) n s w]"
    for w :: "('v, 'n::{zero,one}) world"
    by (simp add: heard_notify)
  show "snapshot (TAsset a) n s (invoke env a s c w) = snapshot (TAsset a) n s w"
    for c and w :: "('v, 'n::{zero,one}) world"
    using snapshot_asset_quiet[OF quiet_invoke] .
qed (simp_all add: ok)

lemma broadcast_absent:
  fixes w :: "('v, 'n::{zero,one}) world"
  assumes "\<not> subscribed (TAsset a) n w"
  shows "heard (TAsset a) n (broadcast env a s w) = heard (TAsset a) n w"
  unfolding broadcast_def forEach_visit
proof (rule fold_visit_absent[where tr = "heard (TAsset a) n" and cb = "Observer n"])
  show "shrinks (a_subscribers (store w ! a)) (a_subscribers (store (invoke env a s c w) ! a))"
    for c and w :: "('v, 'n::{zero,one}) world"
    using quiet_subs[OF quiet_invoke] .
  show "c \<noteq> Observer n \<Longrightarrow> heard (TAsset a) n (invoke env a s c w) = heard (TAsset a) n w"
    for c and w :: "('v, 'n::{zero,one}) world"
    by (simp add: heard_invoke)
  show "\<forall>i\<in>set [0..<length (a_subscribers (store w ! a))].
          i < length (a_subscribers (store w ! a)) \<and> a_subscribers (store w ! a) ! i \<noteq> Some (Observer n)"
    using assms by (auto simp: in_set_conv_nth)
qed

section \<open>Steps of an asset\<close>

lemmas broadcast_fields [simp] = quiet_fields[OF quiet_broadcast]
lemmas broadcast_loader_fields [simp] = quiet_loader_fields[OF quiet_broadcast]
lemmas broadcast_store_length [simp] = quiet_length[OF quiet_broadcast]
lemmas broadcast_promises [simp] = quiet_promises[OF quiet_broadcast]
lemmas broadcast_results [simp] = quiet_results[OF quiet_broadcast]

lemma shrunk_refl: "shrunk w w"
  by (simp add: shrunk_def shrinks_refl)

lemma shrunk_trans:
  assumes "shrunk u v" and "shrunk v w"
  shows "shrunk u w"
proof -
  have "shrinks (a_subscribers (store u ! b)) (a_subscribers (store w ! b))" for b
    using assms by (auto simp: shrunk_def intro: shrinks_trans[of _ "a_subscribers (store v ! b)"])
  moreover have "shrinks (l_subscribers (ldr u)) (l_subscribers (ldr w))"
    using assms by (auto simp: shrunk_def intro: shrinks_trans[of _ "l_subscribers (ldr v)"])
  ultimately show ?thesis by (simp add: shrunk_def)
qed

lemma shrunk_quiet: "quiet P w w' \<Longrightarrow> shrunk w w'"
  by (simp add: shrunk_def quiet_subs quiet_lsubs)

lemma nth_upd_any:
  "(xs[a := f (xs ! a)]) ! b = (if b = a then (if a < length xs then f (xs ! a) else xs ! a) else xs ! b)"
  by (cases "a < length xs") (auto simp: list_update_beyond)

lemma shrunk_upd_asset:
  assumes "\<And>s. a_subscribers (f s) = a_subscribers s"
  shows "shrunk w (upd_asset a f w)"
  by (auto simp: shrunk_def nth_upd_any assms shrinks_refl)

lemma shrunk_subscribed: "shrunk w w' \<Longrightarrow> subscribed t n w' \<Longrightarrow> subscribed t n w"
  by (cases t) (auto simp: shrunk_def intro: shrinks_mem)

lemma shrunk_distinct:
  "shrunk w w' \<Longrightarrow> distinct_entries (a_subscribers (store w ! a)) \<Longrightarrow>
     distinct_entries (a_subscribers (store w' ! a))"
  by (rule distinct_entries_shrinks[of "a_subscribers (store w ! a)"]) (simp_all add: shrunk_def)

lemma shrunk_broadcast: "shrunk w (broadcast env a s w)"
  using quiet_broadcast by (rule shrunk_quiet)

lemma shrunk_updateProgress: "shrunk w (updateProgress env a x w)"
  unfolding updateProgress_def
  by (rule shrunk_trans[OF shrunk_upd_asset shrunk_broadcast]) simp

lemma shrunk_fold_updateProgress: "shrunk w (fold (updateProgress env a) xs w)"
  by (induction xs arbitrary: w) (auto intro: shrunk_refl shrunk_trans shrunk_updateProgress)


lemma shrunk_fulfil: "shrunk w (fulfil pr w)"
  by (simp add: shrunk_def shrinks_refl)

lemma shrunk_finish: "shrunk w (finish env a pr w)"
proof -
  let ?w1 = "upd_asset a (\<lambda>s. s\<lparr>a_loading := False\<rparr>) w"
  let ?w2 = "upd_asset a (\<lambda>s. s\<lparr>a_p := 1\<rparr>) ?w1"
  have "shrunk w ?w1" "shrunk ?w1 ?w2" "shrunk ?w2 (broadcast env a LOADED ?w2)"
    by (simp_all add: shrunk_upd_asset shrunk_broadcast)
  then have "shrunk w (broadcast env a LOADED ?w2)" by (blast intro: shrunk_trans)
  then show ?thesis
    unfolding finish_def Let_def by (rule shrunk_trans) (rule shrunk_fulfil)
qed

lemma shrunk_invoke_loader: "shrunk w (fst (invoke_loader env a w))"
  unfolding invoke_loader_def Let_def fst_conv
  by (rule shrunk_trans[OF shrunk_upd_asset shrunk_fold_updateProgress]) simp

lemma view_append:
  "trace w' = trace w @ new \<Longrightarrow>
     view t n w' = view t n w @
       map (\<lambda>e. (e_status e, e_loading e, e_progress e))
         (filter (\<lambda>e. e_target e = t \<and> e_observer e = n) new)"
  by (simp add: view_def heard_def)

lemma view_upd_asset [simp]: "view t n (upd_asset a f w) = view t n w"
  and view_upd_loader [simp]: "view t n (upd_loader g w) = view t n w"
  and view_fulfil [simp]: "view t n (fulfil pr w) = view t n w"
  and view_results [simp]: "view t n (w\<lparr>results := r\<rparr>) = view t n w"
  and view_promises [simp]: "view t n (w\<lparr>promises := ps\<rparr>) = view t n w"
  by (simp_all add: view_def heard_def)

lemma view_broadcast:
  assumes "distinct_entries (a_subscribers (store w ! a))"
    and "subscribed (TAsset a) n (broadcast env a s w)"
  shows "view (TAsset a) n (broadcast env a s w) =
           view (TAsset a) n w @ [(s, a_loading (store w ! a), a_p (store w ! a))]"
  using broadcast_once[OF assms] by (simp add: view_def snapshot_def)

lemma view_updateProgress:
  assumes ok: "distinct_entries (a_subscribers (store w ! a))"
    and a: "a < length (store w)"
    and still: "subscribed (TAsset a) n (updateProgress env a x w)"
  shows "view (TAsset a) n (updateProgress env a x w) =
           view (TAsset a) n w @ [(PROGRESS, a_loading (store w ! a), x)]"
proof -
  let ?w1 = "upd_asset a (\<lambda>s. s\<lparr>a_p := x\<rparr>) w"
  have d1: "distinct_entries (a_subscribers (store ?w1 ! a))"
    using ok a by simp
  have "view (TAsset a) n (broadcast env a PROGRESS ?w1) =
          view (TAsset a) n ?w1 @ [(PROGRESS, a_loading (store ?w1 ! a), a_p (store ?w1 ! a))]"
    using still by (intro view_broadcast[OF d1]) (simp add: updateProgress_def)
  then show ?thesis using a by (simp add: updateProgress_def)
qed

lemma updateProgress_fields:
  assumes "a < length (store w)"
  shows "a_p (store (updateProgress env a x w) ! a) = x"
    and "a_loading (store (updateProgress env a x w) ! b) = a_loading (store w ! b)"
    and "a_data (store (updateProgress env a x w) ! b) = a_data (store w ! b)"
    and "a_error (store (updateProgress env a x w) ! b) = a_error (store w ! b)"
    and "a_calls (store (updateProgress env a x w) ! b) = a_calls (store w ! b)"
    and "a_awaiting (store (updateProgress env a x w) ! b) = a_awaiting (store w ! b)"
    and "pub_loading (store (updateProgress env a x w) ! b) = pub_loading (store w ! b)"
    and "pub_error (store (updateProgress env a x w) ! b) = pub_error (store w ! b)"
    and "a_loader (store (updateProgress env a x w) ! b) = a_loader (store w ! b)"
    and "length (store (updateProgress env a x w)) = length (store w)"
  using assms by (simp_all add: updateProgress_def nth_upd_any)

lemma fold_updateProgress_fields:
  assumes "a < length (store w)"
  shows "a_p (store (fold (updateProgress env a) xs w) ! a) = last (a_p (store w ! a) # xs)"
    and "a_loading (store (fold (updateProgress env a) xs w) ! b) = a_loading (store w ! b)"
    and "a_data (store (fold (updateProgress env a) xs w) ! b) = a_data (store w ! b)"
    and "a_error (store (fold (updateProgress env a) xs w) ! b) = a_error (store w ! b)"
    and "a_calls (store (fold (updateProgress env a) xs w) ! b) = a_calls (store w ! b)"
    and "a_awaiting (store (fold (updateProgress env a) xs w) ! b) = a_awaiting (store w ! b)"
    and "pub_loading (store (fold (updateProgress env a) xs w) ! b) = pub_loading (store w ! b)"
    and "pub_error (store (fold (updateProgress env a) xs w) ! b) = pub_error (store w ! b)"
    and "a_loader (store (fold (updateProgress env a) xs w) ! b) = a_loader (store w ! b)"
    and "length (store (fold (updateProgress env a) xs w)) = length (store w)"
  using assms by (induction xs arbitrary: w) (simp_all add: updateProgress_fields)

lemma view_fold_updateProgress:
  assumes "distinct_entries (a_subscribers (store w ! a))"
    and "a < length (store w)"
    and "subscribed (TAsset a) n (fold (updateProgress env a) xs w)"
  shows "view (TAsset a) n (fold (updateProgress env a) xs w) =
           view (TAsset a) n w @ map (\<lambda>x. (PROGRESS, a_loading (store w ! a), x)) xs"
  using assms
proof (induction xs arbitrary: w)
  case Nil
  show ?case by simp
next
  case (Cons x xs)
  let ?w1 = "updateProgress env a x w"
  have s1: "subscribed (TAsset a) n ?w1"
  proof (rule shrunk_subscribed[OF shrunk_fold_updateProgress])
    show "subscribed (TAsset a) n (fold (updateProgress env a) xs ?w1)"
      using Cons.prems(3) by simp
  qed
  have d1: "distinct_entries (a_subscribers (store ?w1 ! a))"
    using shrunk_distinct[OF shrunk_updateProgress Cons.prems(1)] .
  have a1: "a < length (store ?w1)"
    using Cons.prems(2) by (simp add: updateProgress_fields)
  have "view (TAsset a) n (fold (updateProgress env a) xs ?w1) =
          view (TAsset a) n ?w1 @ map (\<lambda>x. (PROGRESS, a_loading (store ?w1 ! a), x)) xs"
    using Cons.IH[OF d1 a1] Cons.prems(3) by simp
  then show ?case
    using view_updateProgress[OF Cons.prems(1,2) s1] Cons.prems(2)
    by (simp add: updateProgress_fields)
qed

lemma invoke_loader_result:
  "snd (invoke_loader env a w) = result (a_loader (store w ! a) (a_calls (store w ! a)))"
  by (simp add: invoke_loader_def Let_def)

lemma invoke_loader_fields:
  assumes "a < length (store w)"
  shows "a_p (store (fst (invoke_loader env a w)) ! a) =
           last (a_p (store w ! a) # reports (a_loader (store w ! a) (a_calls (store w ! a))))"
    and "a_loading (store (fst (invoke_loader env a w)) ! a) = a_loading (store w ! a)"
    and "a_data (store (fst (invoke_loader env a w)) ! a) = a_data (store w ! a)"
    and "a_error (store (fst (invoke_loader env a w)) ! a) = a_error (store w ! a)"
    and "a_calls (store (fst (invoke_loader env a w)) ! a) = Suc (a_calls (store w ! a))"
    and "a_awaiting (store (fst (invoke_loader env a w)) ! a) = a_awaiting (store w ! a)"
    and "pub_loading (store (fst (invoke_loader env a w)) ! a) = pub_loading (store w ! a)"
    and "pub_error (store (fst (invoke_loader env a w)) ! a) = pub_error (store w ! a)"
    and "length (store (fst (invoke_loader env a w))) = length (store w)"
  using assms by (simp_all add: invoke_loader_def Let_def fold_updateProgress_fields)

lemma view_invoke_loader:
  assumes ok: "distinct_entries (a_subscribers (store w ! a))"
    and a: "a < length (store w)"
    and still: "subscribed (TAsset a) n (fst (invoke_loader env a w))"
  shows "view (TAsset a) n (fst (invoke_loader env a w)) =
           view (TAsset a) n w @
           map (\<lambda>x. (PROGRESS, a_loading (store w ! a), x))
             (reports (a_loader (store w ! a) (a_calls (store w ! a))))"
proof -
  let ?w1 = "upd_asset a (\<lambda>s. s\<lparr>a_calls := Suc (a_calls s)\<rparr>) w"
  let ?xs = "reports (a_loader (store w ! a) (a_calls (store w ! a)))"
  have d1: "distinct_entries (a_subscribers (store ?w1 ! a))" using ok a by simp
  have a1: "a < length (store ?w1)" using a by simp
  have "subscribed (TAsset a) n (fold (updateProgress env a) ?xs ?w1)"
    using still by (simp add: invoke_loader_def Let_def)
  from view_fold_updateProgress[OF d1 a1 this] a show ?thesis
    by (simp add: invoke_loader_def Let_def)
qed

lemma catch_fields:
  assumes "a < length (store w)"
  shows "a_error (store (catch env a e w) ! a) = Some e"
    and "a_p (store (catch env a e w) ! b) = a_p (store w ! b)"
    and "a_loading (store (catch env a e w) ! b) = a_loading (store w ! b)"
    and "a_data (store (catch env a e w) ! b) = a_data (store w ! b)"
    and "a_calls (store (catch env a e w) ! b) = a_calls (store w ! b)"
    and "a_awaiting (store (catch env a e w) ! b) = a_awaiting (store w ! b)"
    and "pub_loading (store (catch env a e w) ! b) = pub_loading (store w ! b)"
    and "pub_error (store (catch env a e w) ! b) = pub_error (store w ! b)"
    and "length (store (catch env a e w)) = length (store w)"
  using assms by (simp_all add: catch_def nth_list_update)


lemma finish_fields:
  assumes "a < length (store w)"
  shows "a_p (store (finish env a pr w) ! a) = 1"
    and "a_loading (store (finish env a pr w) ! a) = False"
    and "a_error (store (finish env a pr w) ! b) = a_error (store w ! b)"
    and "a_data (store (finish env a pr w) ! b) = a_data (store w ! b)"
    and "a_calls (store (finish env a pr w) ! b) = a_calls (store w ! b)"
    and "a_awaiting (store (finish env a pr w) ! b) = a_awaiting (store w ! b)"
    and "pub_loading (store (finish env a pr w) ! b) = pub_loading (store w ! b)"
    and "pub_error (store (finish env a pr w) ! b) = pub_error (store w ! b)"
    and "length (store (finish env a pr w)) = length (store w)"
  using assms by (simp_all add: finish_def Let_def nth_list_update)

lemma promises_finish: "promises (finish env a pr w) = (promises w)[pr := Fulfilled]"
  by (simp add: finish_def Let_def)

lemma view_finish:
  assumes ok: "distinct_entries (a_subscribers (store w ! a))"
    and a: "a < length (store w)"
    and still: "subscribed (TAsset a) n (finish env a pr w)"
  shows "view (TAsset a) n (finish env a pr w) = view (TAsset a) n w @ [(LOADED, False, 1)]"
proof -
  let ?w2 = "upd_asset a (\<lambda>s. s\<lparr>a_p := 1\<rparr>) (upd_asset a (\<lambda>s. s\<lparr>a_loading := False\<rparr>) w)"
  have d2: "distinct_entries (a_subscribers (store ?w2 ! a))" using ok a by simp
  have "subscribed (TAsset a) n (broadcast env a LOADED ?w2)"
    using still by (simp add: finish_def Let_def)
  from view_broadcast[OF d2 this] a show ?thesis by (simp add: finish_def Let_def)
qed

lemma alloc_simps [simp]:
  "store (fst (alloc st w)) = store w" "ldr (fst (alloc st w)) = ldr w"
  "promises (fst (alloc st w)) = promises w @ [st]" "results (fst (alloc st w)) = results w"
  "trace (fst (alloc st w)) = trace w" "snd (alloc st w) = length (promises w)"
  by (simp_all add: alloc_def)

lemma view_alloc [simp]: "view t n (fst (alloc st w)) = view t n w"
  by (simp add: view_def heard_def)

lemma shrunk_alloc: "shrunk w (fst (alloc st w))"
  by (simp add: shrunk_def shrinks_refl)

lemma started_fields:
  assumes "a < length (store w)"
  shows "a_loading (store (started env a w) ! a) = True"
    and "a_p (store (started env a w) ! b) = a_p (store w ! b)"
    and "a_data (store (started env a w) ! b) = a_data (store w ! b)"
    and "a_error (store (started env a w) ! b) = a_error (store w ! b)"
    and "a_calls (store (started env a w) ! b) = a_calls (store w ! b)"
    and "a_awaiting (store (started env a w) ! b) = a_awaiting (store w ! b)"
    and "a_loader (store (started env a w) ! b) = a_loader (store w ! b)"
    and "pub_loading (store (started env a w) ! b) = pub_loading (store w ! b)"
    and "pub_error (store (started env a w) ! b) = pub_error (store w ! b)"
    and "length (store (started env a w)) = length (store w)"
  using assms by (simp_all add: started_def nth_list_update)

lemma shrunk_started: "shrunk w (started env a w)"
proof -
  let ?w1 = "upd_asset a (\<lambda>s. s\<lparr>a_loading := True\<rparr>) (fst (alloc Pending w))"
  have "shrunk w (fst (alloc Pending w))" by (rule shrunk_alloc)
  moreover have "shrunk (fst (alloc Pending w)) ?w1" by (rule shrunk_upd_asset) simp
  moreover have "shrunk ?w1 (started env a w)" unfolding started_def by (rule shrunk_broadcast)
  ultimately show ?thesis by (blast intro: shrunk_trans)
qed

lemma view_started:
  assumes ok: "distinct_entries (a_subscribers (store w ! a))"
    and a: "a < length (store w)"
    and still: "subscribed (TAsset a) n (started env a w)"
  shows "view (TAsset a) n (started env a w) = view (TAsset a) n w @ [(LOADING, True, a_p (store w ! a))]"
proof -
  let ?w1 = "upd_asset a (\<lambda>s. s\<lparr>a_loading := True\<rparr>) (fst (alloc Pending w))"
  have d1: "distinct_entries (a_subscribers (store ?w1 ! a))" using ok a by simp
  have "subscribed (TAsset a) n (broadcast env a LOADING ?w1)"
    using still by (simp add: started_def)
  from view_broadcast[OF d1 this] a show ?thesis by (simp add: started_def)
qed

lemma next_call_started: "a < length (store w) \<Longrightarrow> next_call a (started env a w) = next_call a w"
  by (simp add: next_call_def started_fields)

lemma called_fields:
  assumes "a < length (store w)"
  shows "a_loading (store (called env a w) ! a) = True"
    and "a_p (store (called env a w) ! a) = last (a_p (store w ! a) # reports (next_call a w))"
    and "a_data (store (called env a w) ! a) = a_data (store w ! a)"
    and "a_error (store (called env a w) ! a) = a_error (store w ! a)"
    and "a_calls (store (called env a w) ! a) = Suc (a_calls (store w ! a))"
    and "a_awaiting (store (called env a w) ! a) = a_awaiting (store w ! a)"
    and "pub_loading (store (called env a w) ! a) = pub_loading (store w ! a)"
    and "pub_error (store (called env a w) ! a) = pub_error (store w ! a)"
    and "length (store (called env a w)) = length (store w)"
  using assms
  by (simp_all add: called_def invoke_loader_fields started_fields next_call_def)

lemma shrunk_called: "shrunk w (called env a w)"
  unfolding called_def by (rule shrunk_trans[OF shrunk_started shrunk_invoke_loader])

lemma view_called:
  assumes ok: "distinct_entries (a_subscribers (store w ! a))"
    and a: "a < length (store w)"
    and still: "subscribed (TAsset a) n (called env a w)"
  shows "view (TAsset a) n (called env a w) =
           view (TAsset a) n w @ [(LOADING, True, a_p (store w ! a))] @
           map (\<lambda>x. (PROGRESS, True, x)) (reports (next_call a w))"
proof -
  let ?w2 = "started env a w"
  have s2: "subscribed (TAsset a) n ?w2"
    by (rule shrunk_subscribed[OF shrunk_invoke_loader]) (use still in \<open>simp add: called_def\<close>)
  have d2: "distinct_entries (a_subscribers (store ?w2 ! a))"
    using shrunk_distinct[OF shrunk_started ok] .
  have a2: "a < length (store ?w2)" using a by (simp add: started_fields)
  have "subscribed (TAsset a) n (fst (invoke_loader env a ?w2))"
    using still by (simp add: called_def)
  from view_invoke_loader[OF d2 a2 this] view_started[OF ok a s2] a
  show ?thesis by (simp add: called_def started_fields next_call_def)
qed

lemma load_when_loading:
  assumes "a_loading (store w ! a)"
  shows "load env a w = (fulfil (length (promises w)) (fst (alloc Pending w)), length (promises w))"
  using assms by (simp add: load_def alloc_def fulfil_def)

lemma load_unfold:
  assumes "\<not> a_loading (store w ! a)" and a: "a < length (store w)"
  shows "load env a w =
     (case result (next_call a w) of
        ReturnsPromise \<Rightarrow>
          (upd_asset a (\<lambda>s. s\<lparr>a_promise := Some (results (called env a w)), a_awaiting := Some (length (promises w))\<rparr>)
             ((called env a w)\<lparr>results := Suc (results (called env a w))\<rparr>), length (promises w))
      | Returns v \<Rightarrow>
          (finish env a (length (promises w)) (upd_asset a (\<lambda>s. s\<lparr>a_data := v\<rparr>) (called env a w)),
           length (promises w))
      | Throws e \<Rightarrow>
          (finish env a (length (promises w)) (catch env a e (called env a w)), length (promises w)))"
proof -
  have r: "snd (invoke_loader env a (started env a w)) = result (next_call a w)"
    using a by (simp add: invoke_loader_result next_call_def started_fields)
  have "load env a w =
     (case snd (invoke_loader env a (started env a w)) of
        ReturnsPromise \<Rightarrow>
          (upd_asset a (\<lambda>s. s\<lparr>a_promise := Some (results (called env a w)), a_awaiting := Some (length (promises w))\<rparr>)
             ((called env a w)\<lparr>results := Suc (results (called env a w))\<rparr>), length (promises w))
      | Returns v \<Rightarrow>
          (finish env a (length (promises w)) (upd_asset a (\<lambda>s. s\<lparr>a_data := v\<rparr>) (called env a w)),
           length (promises w))
      | Throws e \<Rightarrow>
          (finish env a (length (promises w)) (catch env a e (called env a w)), length (promises w)))"
    using assms(1)
    by (cases "snd (invoke_loader env a (started env a w))")
       (simp_all add: load_def alloc_def Let_def split_beta called_def started_def)
  then show ?thesis by (simp only: r)
qed

lemma resume_unfold:
  assumes "a_awaiting (store w ! a) = Some pr"
  shows "resume env a out w =
     (case out of
        Resolves v \<Rightarrow> finish env a pr (upd_asset a (\<lambda>s. s\<lparr>a_data := v\<rparr>) (upd_asset a (\<lambda>s. s\<lparr>a_awaiting := None\<rparr>) w))
      | Rejects e \<Rightarrow> finish env a pr (catch env a e (upd_asset a (\<lambda>s. s\<lparr>a_awaiting := None\<rparr>) w)))"
  using assms by (simp add: resume_def Let_def)

lemma constructed_nth:
  "constructed w \<Longrightarrow> a < length (store w) \<Longrightarrow>
     pub_error (store w ! a) = None \<and> \<not> pub_loading (store w ! a) \<and> pub_promise (store w ! a) = None"
  by (simp add: constructed_def list_all_length)

lemma promises_updateProgress [simp]: "promises (updateProgress env a x w) = promises w"
  and results_updateProgress [simp]: "results (updateProgress env a x w) = results w"
  by (simp_all add: updateProgress_def)

lemma promises_fold_updateProgress [simp]: "promises (fold (updateProgress env a) xs w) = promises w"
  and results_fold_updateProgress [simp]: "results (fold (updateProgress env a) xs w) = results w"
  by (induction xs arbitrary: w) simp_all

lemma promises_invoke_loader [simp]: "promises (fst (invoke_loader env a w)) = promises w"
  and results_invoke_loader [simp]: "results (fst (invoke_loader env a w)) = results w"
  by (simp_all add: invoke_loader_def Let_def)

lemma promises_started [simp]: "promises (started env a w) = promises w @ [Pending]"
  and results_started [simp]: "results (started env a w) = results w"
  by (simp_all add: started_def)

lemma promises_called [simp]: "promises (called env a w) = promises w @ [Pending]"
  and results_called [simp]: "results (called env a w) = results w"
  by (simp_all add: called_def)

lemma promises_catch [simp]: "promises (catch env a e w) = promises w"
  and results_catch [simp]: "results (catch env a e w) = results w"
  by (simp_all add: catch_def)

lemma results_finish [simp]: "results (finish env a pr w) = results w"
  by (simp add: finish_def Let_def)

section \<open>What the operations of an asset leave alone\<close>

lemma outline_quiet:
  assumes "quiet P w w'"
  shows "outline w' = outline w"
  using assms quiet_fields(2)[OF assms] by (simp add: outline_def quiet_def)

lemma outline_upd_asset [simp]:
  "(\<And>s. options_id (f s) = options_id s) \<Longrightarrow> outline (upd_asset a f w) = outline w"
  by (auto simp: outline_def nth_upd_any fun_eq_iff)

lemma outline_alloc [simp]: "outline (fst (alloc st w)) = outline w"
  and outline_fulfil [simp]: "outline (fulfil pr w) = outline w"
  and outline_results [simp]: "outline (w\<lparr>results := r\<rparr>) = outline w"
  and outline_promises [simp]: "outline (w\<lparr>promises := ps\<rparr>) = outline w"
  and outline_trace [simp]: "outline (w\<lparr>trace := tr\<rparr>) = outline w"
  by (simp_all add: outline_def)

lemmas outline_broadcast [simp] = outline_quiet[OF quiet_broadcast]
lemmas outline_unsubscribe [simp] = outline_quiet[OF quiet_unsubscribe]
lemmas outline_loader_broadcast [simp] = outline_quiet[OF quiet_loader_broadcast]
lemmas outline_loader_updateProgress [simp] = outline_quiet[OF quiet_loader_updateProgress]

lemma outline_updateProgress [simp]: "outline (updateProgress env a x w) = outline w"
  by (simp add: updateProgress_def)

lemma outline_fold_updateProgress [simp]: "outline (fold (updateProgress env a) xs w) = outline w"
  by (induction xs arbitrary: w) simp_all

lemma outline_catch [simp]: "outline (catch env a e w) = outline w"
  by (simp add: catch_def)

lemma outline_finish [simp]: "outline (finish env a pr w) = outline w"
  by (simp add: finish_def Let_def)

lemma outline_invoke_loader [simp]: "outline (fst (invoke_loader env a w)) = outline w"
  by (simp add: invoke_loader_def Let_def)

lemma outline_load [simp]: "outline (fst (load env a w)) = outline w"
  by (simp add: load_def alloc_def fulfil_def Let_def split_beta split: result.split)

lemma outline_resume [simp]: "outline (resume env a out w) = outline w"
  by (simp add: resume_def Let_def split: option.split settlement.split)

lemma outline_get_data [simp]: "outline (snd (get_data env a w)) = outline w"
  by (simp add: get_data_def Let_def)

lemma outline_subscribe [simp]: "outline (subscribe a c w) = outline w"
  by (simp add: subscribe_def)

lemma outline_loader_fields:
  assumes "outline w' = outline w"
  shows "inputs (ldr w') = inputs (ldr w)"
    and "l_assets (ldr w') = l_assets (ldr w)"
    and "mapOfAssetsWithID (ldr w') = mapOfAssetsWithID (ldr w)"
    and "l_promise (ldr w') = l_promise (ldr w)"
    and "l_loading (ldr w') = l_loading (ldr w)"
    and "l_error (ldr w') = l_error (ldr w)"
    and "pub_l_loading (ldr w') = pub_l_loading (ldr w)"
    and "pub_l_error (ldr w') = pub_l_error (ldr w)"
    and "branches (ldr w') = branches (ldr w)"
    and "joined (ldr w') = joined (ldr w)"
    and "factory_calls (ldr w') = factory_calls (ldr w)"
    and "options_id (store w' ! b) = options_id (store w ! b)"
    and "length (store w') = length (store w)"
proof -
  from assms have l: "lcore (ldr w') = lcore (ldr w)"
    and o: "(\<lambda>b. options_id (store w' ! b)) = (\<lambda>b. options_id (store w ! b))"
    and n: "length (store w') = length (store w)"
    by (simp_all add: outline_def)
  from l show "inputs (ldr w') = inputs (ldr w)"
    and "l_assets (ldr w') = l_assets (ldr w)"
    and "mapOfAssetsWithID (ldr w') = mapOfAssetsWithID (ldr w)"
    and "l_promise (ldr w') = l_promise (ldr w)"
    and "l_loading (ldr w') = l_loading (ldr w)"
    and "l_error (ldr w') = l_error (ldr w)"
    and "pub_l_loading (ldr w') = pub_l_loading (ldr w)"
    and "pub_l_error (ldr w') = pub_l_error (ldr w)"
    and "branches (ldr w') = branches (ldr w)"
    and "joined (ldr w') = joined (ldr w)"
    and "factory_calls (ldr w') = factory_calls (ldr w)"
    using lcore_fields by metis+
  from o show "options_id (store w' ! b) = options_id (store w ! b)" by metis
  from n show "length (store w') = length (store w)" .
qed

lemmas load_loader_fields [simp] = outline_loader_fields[OF outline_load]
lemmas resume_loader_fields [simp] = outline_loader_fields[OF outline_resume]
lemmas get_data_loader_fields [simp] = outline_loader_fields[OF outline_get_data]
lemmas updateProgress_loader_fields [simp] = outline_loader_fields[OF outline_updateProgress]
lemmas unsubscribe_loader_fields [simp] = outline_loader_fields[OF outline_unsubscribe]
lemmas loader_broadcast_loader_fields [simp] = outline_loader_fields[OF outline_loader_broadcast]
lemmas subscribe_loader_fields [simp] = outline_loader_fields[OF outline_subscribe]

section \<open>Registration and start\<close>

lemma foldl_plus: "foldl (\<lambda>acc a. acc + f a) (z :: rat) xs = z + sum_list (map f xs)"
  by (induction xs arbitrary: z) (simp_all add: add.assoc)

lemma loader_updateProgress_value:
  "l_progress (ldr (loader_updateProgress env w)) =
     counted_mean env (map (\<lambda>a. a_p (store w ! a)) (l_assets (ldr w)))"
  by (simp add: loader_updateProgress_def Let_def l_progress_loader_broadcast foldl_map
      counted_mean_def)

lemma or_zero_exact: "or_zero (exact r) x = x"
  by (simp add: or_zero_def exact_def)

lemma counted_mean_exact: "counted_mean (exact r) xs = mean xs"
proof -
  have "map (or_zero (exact r)) xs = xs"
    by (induction xs) (simp_all add: or_zero_exact)
  moreover have "num_add (exact r) = (+)" and "num_div (exact r) = (\<lambda>x k. x / of_nat k)"
    by (simp_all add: exact_def)
  moreover have "foldl (+) (0 :: rat) xs = sum_list xs"
    using foldl_plus[of "\<lambda>x. x" 0 xs] by simp
  ultimately show ?thesis
    by (simp add: counted_mean_def mean_def)
qed

lemma addToLoader_fields [simp]:
  "l_assets (ldr (addToLoader a w)) = l_assets (ldr w) @ [a]"
  "l_promise (ldr (addToLoader a w)) = l_promise (ldr w)"
  "inputs (ldr (addToLoader a w)) = inputs (ldr w)"
  "factory_calls (ldr (addToLoader a w)) = factory_calls (ldr w)"
  "branches (ldr (addToLoader a w)) = branches (ldr w)"
  "l_error (ldr (addToLoader a w)) = l_error (ldr w)"
  "joined (ldr (addToLoader a w)) = joined (ldr w)"
  "options_id (store (addToLoader a w) ! b) = options_id (store w ! b)"
  "length (store (addToLoader a w)) = length (store w)"
  "promises (addToLoader a w) = promises w"
  "trace (addToLoader a w) = trace w"
  by (simp_all add: addToLoader_def Let_def subscribe_def nth_upd_any split: option.split)

lemma addToLoader_map:
  "mapOfAssetsWithID (ldr (addToLoader a w)) =
     (case options_id (store w ! a) of
        None \<Rightarrow> mapOfAssetsWithID (ldr w)
      | Some i \<Rightarrow> if i = [] then mapOfAssetsWithID (ldr w) else (mapOfAssetsWithID (ldr w))(i \<mapsto> a))"
  by (simp add: addToLoader_def Let_def subscribe_def split: option.split)

lemma start_input_fields:
  "l_assets (ldr (fst (start_input env x w))) = l_assets (ldr w) @ plain_refs [x]"
  "l_promise (ldr (fst (start_input env x w))) = l_promise (ldr w)"
  "inputs (ldr (fst (start_input env x w))) = inputs (ldr w)"
  by (cases x; simp add: split_beta)+

lemma plain_refs_append: "plain_refs (x # xs) = plain_refs [x] @ plain_refs xs"
  by (cases x) simp_all

lemma map_inputs_fields:
  "l_assets (ldr (fst (map_inputs env xs w))) = l_assets (ldr w) @ plain_refs xs"
  "l_promise (ldr (fst (map_inputs env xs w))) = l_promise (ldr w)"
  "inputs (ldr (fst (map_inputs env xs w))) = inputs (ldr w)"
proof (induction xs arbitrary: w)
  case Nil
  {
    case 1 show ?case by simp
  next
    case 2 show ?case by simp
  next
    case 3 show ?case by simp
  }
next
  case (Cons x xs)
  {
    case 1 show ?case
      using Cons.IH(1)[of "fst (start_input env x w)"] plain_refs_append[of x xs]
      by (simp add: split_beta start_input_fields)
  next
    case 2 show ?case
      using Cons.IH(2)[of "fst (start_input env x w)"]
      by (simp add: split_beta start_input_fields)
  next
    case 3 show ?case
      using Cons.IH(3)[of "fst (start_input env x w)"]
      by (simp add: split_beta start_input_fields)
  }
qed

lemma start_again:
  assumes "l_promise (ldr w) = Some p"
  shows "start env w = (upd_loader (\<lambda>l. l\<lparr>l_loading := True\<rparr>) w, p)"
  using assms by (simp add: start_def Let_def)

lemma start_first:
  assumes "l_promise (ldr w) = None"
  shows "l_assets (ldr (fst (start env w))) = l_assets (ldr w) @ plain_refs (inputs (ldr w))"
    and "l_promise (ldr (fst (start env w))) = Some (snd (start env w))"
  using assms
  by (simp_all add: start_def Let_def split_beta alloc_def map_inputs_fields)

lemma start_promise: "l_promise (ldr (fst (start env w))) = Some (snd (start env w))"
  by (cases "l_promise (ldr w)") (simp_all add: start_first start_again)

lemma ldr_update_join [simp]: "ldr (update_join w) = ldr w"
  and store_update_join [simp]: "store (update_join w) = store w"
  and trace_update_join [simp]: "trace (update_join w) = trace w"
  by (simp_all add: update_join_def split: option.split)

lemma set_branch_fields [simp]:
  "l_promise (ldr (set_branch i b w)) = l_promise (ldr w)"
  "l_assets (ldr (set_branch i b w)) = l_assets (ldr w)"
  "mapOfAssetsWithID (ldr (set_branch i b w)) = mapOfAssetsWithID (ldr w)"
  "store (set_branch i b w) = store w"
  by (simp_all add: set_branch_def)

lemma fold_addToLoader_fields [simp]:
  "l_promise (ldr (fold addToLoader refs w)) = l_promise (ldr w)"
  "l_assets (ldr (fold addToLoader refs w)) = l_assets (ldr w) @ refs"
  "options_id (store (fold addToLoader refs w) ! b) = options_id (store w ! b)"
  by (induction refs arbitrary: w) simp_all

lemma outline_load_each [simp]: "outline (fst (load_each env refs w)) = outline w"
  by (induction refs arbitrary: w) (simp_all add: split_beta)

lemmas load_each_loader_fields [simp] = outline_loader_fields[OF outline_load_each]

lemma loader_subscribe_fields [simp]:
  "l_promise (ldr (loader_subscribe n w)) = l_promise (ldr w)"
  "l_assets (ldr (loader_subscribe n w)) = l_assets (ldr w)"
  "mapOfAssetsWithID (ldr (loader_subscribe n w)) = mapOfAssetsWithID (ldr w)"
  "store (loader_subscribe n w) = store w"
  by (simp_all add: loader_subscribe_def)

lemma finally_handler_fields [simp]:
  "l_promise (ldr (finally_handler env w)) = l_promise (ldr w)"
  "l_assets (ldr (finally_handler env w)) = l_assets (ldr w)"
  "mapOfAssetsWithID (ldr (finally_handler env w)) = mapOfAssetsWithID (ldr w)"
  "options_id (store (finally_handler env w) ! b) = options_id (store w ! b)"
  by (simp_all add: finally_handler_def)

lemma join_handlers_fields [simp]:
  "l_promise (ldr (join_handlers env w)) = l_promise (ldr w)"
  "l_assets (ldr (join_handlers env w)) = l_assets (ldr w)"
  "mapOfAssetsWithID (ldr (join_handlers env w)) = mapOfAssetsWithID (ldr w)"
  "options_id (store (join_handlers env w) ! b) = options_id (store w ! b)"
  by (simp_all add: join_handlers_def split: option.split pstate.split)

lemma factory_fields [simp]:
  "l_promise (ldr (factory_resolved i refs w)) = l_promise (ldr w)"
  "l_promise (ldr (factory_rejected i e w)) = l_promise (ldr w)"
  "l_promise (ldr (factory_then env i w)) = l_promise (ldr w)"
  by (simp_all add: factory_resolved_def factory_rejected_def factory_then_def split_beta
      split: branch.split)

lemma perform_keeps_promise:
  assumes "l_promise (ldr w) = Some p"
  shows "l_promise (ldr (perform env ev w)) = Some p"
proof (cases ev)
  case (CallSubscribe t n)
  then show ?thesis using assms by (cases t) simp_all
next
  case CallStart
  then show ?thesis using assms by (simp add: start_again)
qed (use assms in simp_all)

lemma run_keeps_promise:
  "l_promise (ldr w) = Some p \<Longrightarrow> l_promise (ldr (run env evs w)) = Some p"
  unfolding run_def
  by (induction evs arbitrary: w) (simp_all add: step_def perform_keeps_promise)

section \<open>The id index\<close>

lemma indexed_cong:
  assumes "l_assets (ldr w') = l_assets (ldr w)"
    and "mapOfAssetsWithID (ldr w') = mapOfAssetsWithID (ldr w)"
    and "\<And>b. options_id (store w' ! b) = options_id (store w ! b)"
    and "indexed w"
  shows "indexed w'"
  using assms by (simp add: indexed_def get_def latest_def)

lemma indexed_outline:
  assumes "outline w' = outline w" and "indexed w"
  shows "indexed w'"
  using outline_loader_fields(2,3,12)[OF assms(1)] assms(2) by (rule indexed_cong)

lemma indexed_addToLoader:
  assumes "indexed w"
  shows "indexed (addToLoader a w)"
  using assms
  by (auto simp: indexed_def get_def latest_def addToLoader_map split: option.split)

lemma indexed_fold_addToLoader: "indexed w \<Longrightarrow> indexed (fold addToLoader refs w)"
  by (induction refs arbitrary: w) (simp_all add: indexed_addToLoader)

lemma indexed_upd_loader:
  assumes "\<And>l. l_assets (f l) = l_assets l" and "\<And>l. mapOfAssetsWithID (f l) = mapOfAssetsWithID l"
    and "indexed w"
  shows "indexed (upd_loader f w)"
  using assms by (simp add: indexed_def get_def latest_def)

lemma indexed_start_input: "indexed w \<Longrightarrow> indexed (fst (start_input env x w))"
proof (cases x)
  case (Plain a)
  assume "indexed w"
  then have "indexed (addToLoader a w)" by (rule indexed_addToLoader)
  then have "indexed (fst (load env a (addToLoader a w)))"
    by (rule indexed_outline[OF outline_load])
  then show ?thesis using Plain by (simp add: split_beta)
next
  case (Factory k)
  assume "indexed w"
  then show ?thesis using Factory by (simp add: indexed_upd_loader)
qed

lemma indexed_map_inputs: "indexed w \<Longrightarrow> indexed (fst (map_inputs env xs w))"
  by (induction xs arbitrary: w) (simp_all add: split_beta indexed_start_input)

lemma indexed_start: "indexed w \<Longrightarrow> indexed (fst (start env w))"
proof -
  assume i: "indexed w"
  let ?w1 = "upd_loader (\<lambda>l. l\<lparr>l_loading := True\<rparr>) w"
  have i1: "indexed ?w1" using i by (simp add: indexed_upd_loader)
  show ?thesis
  proof (cases "l_promise (ldr w)")
    case (Some p)
    then show ?thesis using i1 by (simp add: start_again)
  next
    case None
    let ?w2 = "loader_broadcast env LOADING ?w1"
    let ?w3 = "fst (map_inputs env (inputs (ldr ?w2)) ?w2)"
    have "indexed ?w2" using i1 by (rule indexed_outline[OF outline_loader_broadcast])
    then have "indexed ?w3" by (rule indexed_map_inputs)
    then have "indexed (fst (alloc Pending ?w3))" by (rule indexed_outline[OF outline_alloc])
    then show ?thesis
      using None by (simp add: start_def Let_def split_beta indexed_upd_loader)
  qed
qed

lemma indexed_set_branch: "indexed w \<Longrightarrow> indexed (set_branch i b w)"
  by (simp add: set_branch_def indexed_upd_loader)

lemma indexed_join_handlers: "indexed w \<Longrightarrow> indexed (join_handlers env w)"
  by (rule indexed_cong[of _ w]) simp_all

lemma indexed_perform: "indexed w \<Longrightarrow> indexed (perform env ev w)"
proof (cases ev)
  case (CallLoad a)
  assume "indexed w"
  then show ?thesis unfolding CallLoad perform.simps by (rule indexed_outline[OF outline_load])
next
  case (ReadData a)
  assume "indexed w"
  then show ?thesis unfolding ReadData perform.simps by (rule indexed_outline[OF outline_get_data])
next
  case (CallSubscribe t n)
  assume "indexed w"
  then show ?thesis unfolding CallSubscribe
    by (cases t) (simp_all add: indexed_outline[OF outline_subscribe] loader_subscribe_def indexed_upd_loader)
next
  case (CallUnsubscribe t n)
  assume "indexed w"
  then show ?thesis unfolding CallUnsubscribe perform.simps
    by (rule indexed_outline[OF outline_unsubscribe])
next
  case CallStart
  assume "indexed w"
  then show ?thesis unfolding CallStart perform.simps by (rule indexed_start)
next
  case (Report a x)
  assume "indexed w"
  then show ?thesis unfolding Report
    by (simp add: indexed_outline[OF outline_updateProgress])
next
  case (Settle a out)
  assume "indexed w"
  then show ?thesis unfolding Settle perform.simps by (rule indexed_outline[OF outline_resume])
next
  case (FactoryResolves i refs)
  assume "indexed w"
  then show ?thesis unfolding FactoryResolves
    by (simp add: factory_resolved_def indexed_set_branch indexed_fold_addToLoader split: branch.split)
next
  case (FactoryRejects i e)
  assume "indexed w"
  then show ?thesis unfolding FactoryRejects
    by (simp add: factory_rejected_def indexed_set_branch split: branch.split)
next
  case (FactoryThen i)
  assume "indexed w"
  then show ?thesis unfolding FactoryThen
    by (simp add: factory_then_def split_beta indexed_set_branch indexed_outline[OF outline_load_each]
        split: branch.split)
next
  case JoinSettled
  assume "indexed w"
  then show ?thesis unfolding JoinSettled perform.simps by (rule indexed_join_handlers)
qed

lemma indexed_step: "indexed w \<Longrightarrow> indexed (step env ev w)"
  unfolding step_def
  by (rule indexed_cong[of _ "perform env ev w"]) (simp_all add: indexed_perform)

lemma indexed_run: "indexed w \<Longrightarrow> indexed (run env evs w)"
  unfolding run_def by (induction evs arbitrary: w) (simp_all add: indexed_step)

lemma indexed_init: "indexed (init assets ins)"
  by (simp add: indexed_def get_def latest_def init_def loader_def)

section \<open>A loader over plain assets\<close>

lemma mild_refl: "mild w w"
  by (simp add: mild_def)

lemma mild_trans:
  assumes "mild u v" and "mild v w"
  shows "mild u w"
proof -
  from assms obtain n1 n2 where
    n1: "trace v = trace u @ n1" "\<forall>e\<in>set n1. e_target e = TLoader \<longrightarrow> e_status e \<noteq> ERROR"
    and n2: "trace w = trace v @ n2" "\<forall>e\<in>set n2. e_target e = TLoader \<longrightarrow> e_status e \<noteq> ERROR"
    unfolding mild_def by blast
  have tr: "\<exists>new. trace w = trace u @ new \<and>
        (\<forall>e\<in>set new. e_target e = TLoader \<longrightarrow> e_status e \<noteq> ERROR)"
    using n1 n2 by (intro exI[of _ "n1 @ n2"]) auto
  have pr: "\<forall>s\<in>set (promises w). s \<in> set (promises u) \<or> s = Pending \<or> s = Fulfilled"
    using assms unfolding mild_def by blast
  from assms have "inputs (ldr w) = inputs (ldr u)" "branches (ldr w) = branches (ldr u)"
    "l_promise (ldr w) = l_promise (ldr u)" "l_error (ldr w) = l_error (ldr u)"
    "length (promises u) \<le> length (promises w)"
    by (simp_all add: mild_def)
  with tr pr show ?thesis unfolding mild_def by blast
qed

lemma mild_quiet:
  assumes "quiet P w w'" and "\<And>e. P e \<Longrightarrow> e_target e = TLoader \<Longrightarrow> e_status e \<noteq> ERROR"
  shows "mild w w'"
proof -
  from assms(1) obtain new where "trace w' = trace w @ new" "\<forall>e\<in>set new. P e"
    unfolding quiet_def by blast
  with assms(2) have "\<exists>new. trace w' = trace w @ new \<and>
        (\<forall>e\<in>set new. e_target e = TLoader \<longrightarrow> e_status e \<noteq> ERROR)"
    by blast
  then show ?thesis
    unfolding mild_def
    by (simp add: quiet_loader_fields[OF assms(1)] quiet_promises[OF assms(1)])
qed

lemma mild_upd_asset: "mild w (upd_asset a f w)"
  and mild_alloc: "mild w (fst (alloc Pending w))"
  and mild_results: "mild w (w\<lparr>results := r\<rparr>)"
  by (auto simp: mild_def)

lemma mild_fulfil: "mild w (fulfil pr w)"
  by (auto simp: mild_def dest: set_update_subset_insert[THEN subsetD])

lemma mild_broadcast: "mild w (broadcast env a s w)"
  by (rule mild_quiet[OF quiet_broadcast]) auto

lemma mild_unsubscribe: "mild w (unsubscribe t n w)"
  by (rule mild_quiet[OF quiet_unsubscribe[where P = "\<lambda>e. False"]]) simp

lemma mild_loader_broadcast: "s \<noteq> ERROR \<Longrightarrow> mild w (loader_broadcast env s w)"
  by (rule mild_quiet[OF quiet_loader_broadcast]) auto

lemmas mild_after =
  mild_trans[OF _ mild_upd_asset] mild_trans[OF _ mild_alloc] mild_trans[OF _ mild_results]
  mild_trans[OF _ mild_fulfil] mild_trans[OF _ mild_broadcast] mild_trans[OF _ mild_unsubscribe]

lemma mild_updateProgress: "mild w (updateProgress env a x w)"
  unfolding updateProgress_def by (intro mild_after mild_refl)

lemma mild_fold_updateProgress: "mild w (fold (updateProgress env a) xs w)"
proof (induction xs arbitrary: w)
  case Nil
  show ?case by (simp add: mild_refl)
next
  case (Cons x xs)
  show ?case using mild_trans[OF mild_updateProgress Cons.IH] by simp
qed

lemma mild_catch: "mild w (catch env a e w)"
  unfolding catch_def by (intro mild_after mild_refl)

lemma mild_finish: "mild w (finish env a pr w)"
  unfolding finish_def Let_def by (intro mild_after mild_refl)

lemma mild_invoke_loader: "mild w (fst (invoke_loader env a w))"
  unfolding invoke_loader_def Let_def fst_conv
  by (rule mild_trans[OF mild_upd_asset mild_fold_updateProgress])

lemmas mild_after' = mild_after
  mild_trans[OF _ mild_finish] mild_trans[OF _ mild_catch] mild_trans[OF _ mild_invoke_loader]

lemma mild_load: "mild w (fst (load env a w))"
proof -
  let ?w0 = "fst (alloc Pending w)"
  let ?w2 = "broadcast env a LOADING (upd_asset a (\<lambda>s. s\<lparr>a_loading := True\<rparr>) ?w0)"
  let ?w3 = "fst (invoke_loader env a ?w2)"
  have m3: "mild w ?w3" by (intro mild_after' mild_refl)
  show ?thesis
  proof (cases "a_loading (store w ! a)")
    case True
    then show ?thesis by (simp add: load_when_loading) (intro mild_after mild_refl)
  next
    case False
    show ?thesis
    proof (cases "snd (invoke_loader env a ?w2)")
      case (Returns v)
      have "mild w (finish env a (length (promises w)) (upd_asset a (\<lambda>s. s\<lparr>a_data := v\<rparr>) ?w3))"
        by (intro mild_after' m3)
      then show ?thesis using False Returns
        by (simp add: load_def Let_def split_beta)
    next
      case (Throws e)
      have "mild w (finish env a (length (promises w)) (catch env a e ?w3))"
        by (intro mild_after' m3)
      then show ?thesis using False Throws
        by (simp add: load_def Let_def split_beta)
    next
      case ReturnsPromise
      have "mild w (upd_asset a (\<lambda>s. s\<lparr>a_promise := Some (results ?w3), a_awaiting := Some (length (promises w))\<rparr>)
             (?w3\<lparr>results := Suc (results ?w3)\<rparr>))"
        by (intro mild_after' m3)
      then show ?thesis using False ReturnsPromise
        by (simp add: load_def Let_def split_beta)
    qed
  qed
qed

lemma mild_resume: "mild w (resume env a out w)"
proof (cases "a_awaiting (store w ! a)")
  case None
  then show ?thesis by (simp add: resume_def mild_refl)
next
  case (Some pr)
  show ?thesis
    by (cases out; simp add: resume_unfold[OF Some]; intro mild_after' mild_refl)
qed

lemma mild_get_data: "mild w (snd (get_data env a w))"
  by (simp add: get_data_def Let_def mild_load mild_refl)

lemma load_promise:
  "snd (load env a w) = length (promises w)"
  "length (promises w) < length (promises (fst (load env a w)))"
  by (simp_all add: load_def alloc_def fulfil_def Let_def split_beta promises_finish
      split: result.split)

lemma plain_only_mild:
  assumes "mild w w'" and "plain_only w"
  shows "plain_only w'"
proof -
  from assms(1) obtain new where new: "trace w' = trace w @ new"
    "\<forall>e\<in>set new. e_target e = TLoader \<longrightarrow> e_status e \<noteq> ERROR"
    unfolding mild_def by blast
  from assms(1) have same: "inputs (ldr w') = inputs (ldr w)" "branches (ldr w') = branches (ldr w)"
    "l_promise (ldr w') = l_promise (ldr w)" "l_error (ldr w') = l_error (ldr w)"
    and len: "length (promises w) \<le> length (promises w')"
    and ps: "\<forall>s\<in>set (promises w'). s \<in> set (promises w) \<or> s = Pending \<or> s = Fulfilled"
    by (simp_all add: mild_def)
  have 1: "\<forall>x\<in>set (inputs (ldr w')). \<exists>a. x = Plain a"
    using assms(2) same by (simp add: plain_only_def)
  have 2: "\<forall>b\<in>set (branches (ldr w')). \<exists>pr. b = BLoad pr \<and> pr < length (promises w')"
    using assms(2) same len by (fastforce simp: plain_only_def)
  have 3: "\<forall>s\<in>set (promises w'). s = Pending \<or> s = Fulfilled"
    using assms(2) ps by (fastforce simp: plain_only_def)
  have 4: "\<forall>j. l_promise (ldr w') = Some j \<longrightarrow> j < length (promises w')"
  proof (intro allI impI)
    fix j assume "l_promise (ldr w') = Some j"
    with same assms(2) have "j < length (promises w)" by (simp add: plain_only_def)
    with len show "j < length (promises w')" by simp
  qed
  have 5: "l_error (ldr w') = None"
    using assms(2) same by (simp add: plain_only_def)
  have 6: "\<forall>e\<in>set (trace w'). e_target e = TLoader \<longrightarrow> e_status e \<noteq> ERROR"
    using assms(2) new by (auto simp: plain_only_def)
  from 1 2 3 4 5 6 show ?thesis unfolding plain_only_def by blast
qed

lemma mild_addToLoader: "mild w (addToLoader a w)"
  by (simp add: mild_def)

lemma mild_subscribe: "mild w (subscribe a c w)"
  unfolding subscribe_def by (rule mild_upd_asset)

lemma mild_upd_loader:
  assumes "\<And>l. inputs (f l) = inputs l" "\<And>l. branches (f l) = branches l"
    "\<And>l. l_promise (f l) = l_promise l" "\<And>l. l_error (f l) = l_error l"
  shows "mild w (upd_loader f w)"
  by (simp add: mild_def assms)

lemma mild_load_each: "mild w (fst (load_each env refs w))"
proof (induction refs arbitrary: w)
  case Nil
  show ?case by (simp add: mild_refl)
next
  case (Cons a refs)
  show ?case using mild_trans[OF mild_load Cons.IH] by (simp add: split_beta)
qed

lemma map_inputs_plain:
  assumes "\<forall>x\<in>set xs. \<exists>a. x = Plain a"
  shows "mild w (fst (map_inputs env xs w)) \<and>
         (\<forall>b\<in>set (snd (map_inputs env xs w)).
            \<exists>pr. b = BLoad pr \<and> pr < length (promises (fst (map_inputs env xs w))))"
  using assms
proof (induction xs arbitrary: w)
  case Nil
  show ?case by (simp add: mild_refl)
next
  case (Cons x xs)
  from Cons.prems obtain a where x: "x = Plain a" by auto
  let ?w1 = "fst (load env a (addToLoader a w))"
  let ?pr = "snd (load env a (addToLoader a w))"
  have m1: "mild w ?w1" using mild_trans[OF mild_addToLoader mild_load] .
  have b1: "?pr < length (promises ?w1)" by (simp only: load_promise)
  from Cons.IH[of ?w1] Cons.prems
  have ih: "mild ?w1 (fst (map_inputs env xs ?w1))"
    "\<forall>b\<in>set (snd (map_inputs env xs ?w1)).
       \<exists>pr. b = BLoad pr \<and> pr < length (promises (fst (map_inputs env xs ?w1)))"
    by simp_all
  have "length (promises ?w1) \<le> length (promises (fst (map_inputs env xs ?w1)))"
    using ih(1) by (simp add: mild_def)
  with b1 have b2: "?pr < length (promises (fst (map_inputs env xs ?w1)))" by simp
  show ?case
    using mild_trans[OF m1 ih(1)] ih(2) b2 by (simp add: x split_beta)
qed

lemma plain_only_start:
  assumes "plain_only w"
  shows "plain_only (fst (start env w))"
proof (cases "l_promise (ldr w)")
  case (Some p)
  have "mild w (upd_loader (\<lambda>l. l\<lparr>l_loading := True\<rparr>) w)" by (rule mild_upd_loader) simp_all
  then show ?thesis using Some assms by (simp add: start_again plain_only_mild)
next
  case None
  let ?w1 = "upd_loader (\<lambda>l. l\<lparr>l_loading := True\<rparr>) w"
  let ?w2 = "loader_broadcast env LOADING ?w1"
  let ?r = "map_inputs env (inputs (ldr ?w2)) ?w2"
  have m1: "mild w ?w1" by (rule mild_upd_loader) simp_all
  have m2: "mild w ?w2" by (rule mild_trans[OF m1 mild_loader_broadcast]) simp
  have p2: "plain_only ?w2" using plain_only_mild[OF m2 assms] .
  then have pl: "\<forall>x\<in>set (inputs (ldr ?w2)). \<exists>a. x = Plain a" by (simp add: plain_only_def)
  note mp = map_inputs_plain[OF pl, of ?w2 env]
  have p3: "plain_only (fst ?r)" using plain_only_mild[OF mp[THEN conjunct1] p2] .
  have st: "fst (start env w) =
      upd_loader (\<lambda>l. l\<lparr>l_promise := Some (length (promises (fst ?r))), branches := snd ?r\<rparr>)
        (fst (alloc Pending (fst ?r)))"
    using None by (simp add: start_def Let_def split_beta)
  show ?thesis
    unfolding st using p3 mp[THEN conjunct2]
    by (fastforce simp: plain_only_def less_Suc_eq)
qed

lemma all_state_plain:
  "\<forall>s\<in>set xs. s = Pending \<or> s = Fulfilled \<Longrightarrow> all_state xs = Pending \<or> all_state xs = Fulfilled"
  by (induction xs rule: all_state.induct) auto

lemma plain_only_update_join:
  assumes "plain_only w"
  shows "plain_only (update_join w)"
proof (cases "l_promise (ldr w)")
  case None
  then show ?thesis using assms by (simp add: update_join_def)
next
  case (Some j)
  let ?x = "all_state (map (branch_state (promises w)) (branches (ldr w)))"
  have "\<forall>s\<in>set (map (branch_state (promises w)) (branches (ldr w))). s = Pending \<or> s = Fulfilled"
    using assms by (fastforce simp: plain_only_def)
  then have x: "?x = Pending \<or> ?x = Fulfilled" by (rule all_state_plain)
  have "\<forall>s\<in>set ((promises w)[j := ?x]). s = Pending \<or> s = Fulfilled"
    using assms x set_update_subset_insert[of "promises w" j ?x]
    by (auto simp: plain_only_def)
  then have "plain_only (w\<lparr>promises := (promises w)[j := ?x]\<rparr>)"
    using assms by (simp add: plain_only_def)
  then show ?thesis using Some assms by (simp add: update_join_def)
qed

lemma plain_only_join_handlers:
  assumes "plain_only w"
  shows "plain_only (join_handlers env w)"
proof (cases "l_promise (ldr w)")
  case None
  then show ?thesis using assms by (simp add: join_handlers_def)
next
  case (Some j)
  from assms Some have "promises w ! j = Pending \<or> promises w ! j = Fulfilled"
    by (simp add: plain_only_def)
  moreover have "mild w (finally_handler env (upd_loader (\<lambda>l. l\<lparr>joined := True\<rparr>) w))"
    unfolding finally_handler_def
    by (intro mild_trans[OF _ mild_loader_broadcast] mild_trans[OF _ mild_upd_loader] mild_refl)
       simp_all
  ultimately show ?thesis
    using Some assms by (auto simp: join_handlers_def plain_only_mild)
qed

lemma plain_only_factory:
  assumes "plain_only w"
  shows "factory_resolved i refs w = w" and "factory_rejected i e w = w" and "factory_then env i w = w"
proof -
  have "\<exists>pr. branches (ldr w) ! i = BLoad pr" if "i < length (branches (ldr w))"
    using assms that by (auto simp: plain_only_def dest: nth_mem)
  then show "factory_resolved i refs w = w" and "factory_rejected i e w = w"
    and "factory_then env i w = w"
    by (auto simp: factory_resolved_def factory_rejected_def factory_then_def)
qed

lemma plain_only_perform:
  assumes "plain_only w"
  shows "plain_only (perform env ev w)"
proof (cases ev)
  case (CallLoad a)
  show ?thesis unfolding CallLoad perform.simps using mild_load assms by (rule plain_only_mild)
next
  case (ReadData a)
  show ?thesis unfolding ReadData perform.simps using mild_get_data assms by (rule plain_only_mild)
next
  case (CallSubscribe t n)
  show ?thesis
  proof (cases t)
    case (TAsset a)
    show ?thesis unfolding CallSubscribe TAsset perform.simps
      using mild_subscribe assms by (rule plain_only_mild)
  next
    case TLoader
    have "mild w (loader_subscribe n w)"
      unfolding loader_subscribe_def by (rule mild_upd_loader) simp_all
    then show ?thesis unfolding CallSubscribe TLoader perform.simps
      using assms by (rule plain_only_mild)
  qed
next
  case (CallUnsubscribe t n)
  show ?thesis unfolding CallUnsubscribe perform.simps
    using mild_unsubscribe assms by (rule plain_only_mild)
next
  case CallStart
  show ?thesis unfolding CallStart perform.simps using assms by (rule plain_only_start)
next
  case (Report a x)
  show ?thesis unfolding Report
    using assms plain_only_mild[OF mild_updateProgress assms] by simp
next
  case (Settle a out)
  show ?thesis unfolding Settle perform.simps using mild_resume assms by (rule plain_only_mild)
next
  case (FactoryResolves i refs)
  show ?thesis unfolding FactoryResolves using assms by (simp add: plain_only_factory)
next
  case (FactoryRejects i e)
  show ?thesis unfolding FactoryRejects using assms by (simp add: plain_only_factory)
next
  case (FactoryThen i)
  show ?thesis unfolding FactoryThen using assms by (simp add: plain_only_factory)
next
  case JoinSettled
  show ?thesis unfolding JoinSettled perform.simps using assms by (rule plain_only_join_handlers)
qed

lemma plain_only_run: "plain_only w \<Longrightarrow> plain_only (run env evs w)"
  unfolding run_def
  by (induction evs arbitrary: w) (simp_all add: step_def plain_only_perform plain_only_update_join)

lemma plain_only_init: "\<forall>x\<in>set ins. \<exists>a. x = Plain a \<Longrightarrow> plain_only (init assets ins)"
  by (simp add: plain_only_def init_def loader_def)

text \<open>
  Whatever the observers do and in whatever order things happen, a loader all of whose
  arguments are plain assets never latches an error, never tells an observer
  \<^verbatim>\<open>ERROR\<close>, and the promise of its \<^verbatim>\<open>start\<close> is never rejected.
\<close>

lemma plain_loader_never_errors:
  assumes "\<forall>x\<in>set ins. \<exists>a. x = Plain a"
  shows "l_error (ldr (run env evs (init assets ins))) = None"
    and "ERROR \<notin> set (map fst (view TLoader n (run env evs (init assets ins))))"
    and "l_promise (ldr (run env evs (init assets ins))) = Some j \<Longrightarrow>
           promises (run env evs (init assets ins)) ! j \<noteq> Rejected e"
proof -
  have p: "plain_only (run env evs (init assets ins))"
    using assms by (intro plain_only_run plain_only_init)
  then show "l_error (ldr (run env evs (init assets ins))) = None"
    by (simp add: plain_only_def)
  from p show "ERROR \<notin> set (map fst (view TLoader n (run env evs (init assets ins))))"
    by (auto simp: plain_only_def view_def heard_def)
  assume "l_promise (ldr (run env evs (init assets ins))) = Some j"
  with p have "promises (run env evs (init assets ins)) ! j = Pending \<or>
      promises (run env evs (init assets ins)) ! j = Fulfilled"
    by (simp add: plain_only_def)
  then show "promises (run env evs (init assets ins)) ! j \<noteq> Rejected e" by auto
qed

section \<open>A loader over an asset that resolves and one that rejects\<close>

text \<open>
  C1 says that, after the join has settled, the loader holds the error of the rejected
  asset and its subscribers have seen \<^verbatim>\<open>ERROR\<close> and \<^verbatim>\<open>LOADED\<close>. The promise of
  \<^verbatim>\<open>asset.load()\<close> never rejects: \<^verbatim>\<open>load\<close> catches the rejection and stores it on
  the asset. So the \<^verbatim>\<open>Promise.all\<close> of \<^verbatim>\<open>start\<close> is fulfilled, its \<^verbatim>\<open>catch\<close>
  handler does not run, and only the \<^verbatim>\<open>finally\<close> handler does. Here the first asset
  resolves to \<open>''a''\<close>, the second rejects with \<open>Error ''x''\<close>, and then the handlers of
  the join run.
\<close>

theorem loader_error_counterexample:
  "summary 1 (run onlookers
      [CallStart, Settle 0 (Resolves (Some ''a'')), Settle 1 (Rejects (Error ''x'')), JoinSettled]
      (two_assets (Call [] ReturnsPromise) (Call [] ReturnsPromise))) =
     (None, False, Some Fulfilled,
      [LOADING, PROGRESS, PROGRESS, PROGRESS, PROGRESS, PROGRESS, LOADED],
      Some (Error ''x''), [LOADING, ERROR, LOADED]) \<and>
   l_error (ldr (run onlookers
      [CallStart, Settle 0 (Resolves (Some ''a'')), Settle 1 (Rejects (Error ''x'')), JoinSettled]
      (two_assets (Call [] ReturnsPromise) (Call [] ReturnsPromise)))) \<noteq> Some (Error ''x'') \<and>
   ERROR \<notin> set (map fst (view TLoader 7 (run onlookers
      [CallStart, Settle 0 (Resolves (Some ''a'')), Settle 1 (Rejects (Error ''x'')), JoinSettled]
      (two_assets (Call [] ReturnsPromise) (Call [] ReturnsPromise)))))"
  by code_simp

text \<open>
  C1, amended. For a loader started over two plain assets, one whose load function
  resolves to \<open>v\<close> and one whose load function rejects with \<open>e\<close>, the join is fulfilled.
  After it has settled the loader has latched no error, its \<^verbatim>\<open>loading\<close> is false, and
  its subscribers have observed \<^verbatim>\<open>LOADING\<close>, one \<^verbatim>\<open>PROGRESS\<close> per status event of a
  child and \<^verbatim>\<open>LOADED\<close>, but no \<^verbatim>\<open>ERROR\<close>. The error is on the rejecting asset,
  whose own subscribers have observed \<^verbatim>\<open>ERROR\<close> and then \<^verbatim>\<open>LOADED\<close>. This holds
  whichever of the two assets is declared first, in whichever order the two promises
  settle, and also when the resolving load function returns \<open>v\<close> without a promise.
\<close>

theorem loader_join_fulfilled:
  "summary 1 (run onlookers [CallStart, Settle 0 (Resolves (Some v)), Settle 1 (Rejects e), JoinSettled]
      (two_assets (Call [] ReturnsPromise) (Call [] ReturnsPromise))) =
     (None, False, Some Fulfilled,
      [LOADING, PROGRESS, PROGRESS, PROGRESS, PROGRESS, PROGRESS, LOADED],
      Some e, [LOADING, ERROR, LOADED]) \<and>
   summary 1 (run onlookers [CallStart, Settle 1 (Rejects e), Settle 0 (Resolves (Some v)), JoinSettled]
      (two_assets (Call [] ReturnsPromise) (Call [] ReturnsPromise))) =
     (None, False, Some Fulfilled,
      [LOADING, PROGRESS, PROGRESS, PROGRESS, PROGRESS, PROGRESS, LOADED],
      Some e, [LOADING, ERROR, LOADED]) \<and>
   summary 0 (run onlookers [CallStart, Settle 0 (Rejects e), Settle 1 (Resolves (Some v)), JoinSettled]
      (two_assets (Call [] ReturnsPromise) (Call [] ReturnsPromise))) =
     (None, False, Some Fulfilled,
      [LOADING, PROGRESS, PROGRESS, PROGRESS, PROGRESS, PROGRESS, LOADED],
      Some e, [LOADING, ERROR, LOADED]) \<and>
   summary 0 (run onlookers [CallStart, Settle 1 (Resolves (Some v)), Settle 0 (Rejects e), JoinSettled]
      (two_assets (Call [] ReturnsPromise) (Call [] ReturnsPromise))) =
     (None, False, Some Fulfilled,
      [LOADING, PROGRESS, PROGRESS, PROGRESS, PROGRESS, PROGRESS, LOADED],
      Some e, [LOADING, ERROR, LOADED]) \<and>
   summary 1 (run onlookers [CallStart, Settle 1 (Rejects e), JoinSettled]
      (two_assets (Call [] (Returns (Some v))) (Call [] ReturnsPromise))) =
     (None, False, Some Fulfilled,
      [LOADING, PROGRESS, PROGRESS, PROGRESS, PROGRESS, PROGRESS, LOADED],
      Some e, [LOADING, ERROR, LOADED]) \<and>
   summary 0 (run onlookers [CallStart, Settle 0 (Rejects e), JoinSettled]
      (two_assets (Call [] ReturnsPromise) (Call [] (Returns (Some v))))) =
     (None, False, Some Fulfilled,
      [LOADING, PROGRESS, PROGRESS, PROGRESS, PROGRESS, PROGRESS, LOADED],
      Some e, [LOADING, ERROR, LOADED])"
  by code_simp

section \<open>The \<^verbatim>\<open>error\<close> property of an asset\<close>

text \<open>
  C2 says that the \<^verbatim>\<open>error\<close> property of an asset is set exactly when its load
  function failed. The variable \<^verbatim>\<open>error\<close> is set by the \<^verbatim>\<open>catch\<close> block, but the
  object returned by \<^verbatim>\<open>asset\<close> holds a copy of the variable taken when the object
  was built, and nothing writes the property afterwards. After a load function has
  thrown \<open>Error ''x''\<close>, or the promise it returned has been rejected with it, the
  variable holds the error, the property is still undefined, and the promise of the
  \<^verbatim>\<open>load()\<close> call is fulfilled.
\<close>

theorem error_property_after_failure:
  "a_error (store (run onlookers [CallLoad 0] w_throw) ! 0) = Some (Error ''x'') \<and>
   pub_error (store (run onlookers [CallLoad 0] w_throw) ! 0) = None \<and>
   promises (run onlookers [CallLoad 0] w_throw) = [Fulfilled] \<and>
   a_error (store (run onlookers [CallLoad 0, Settle 0 (Rejects (Error ''x''))] w_async) ! 0) =
     Some (Error ''x'') \<and>
   pub_error (store (run onlookers [CallLoad 0, Settle 0 (Rejects (Error ''x''))] w_async) ! 0) = None \<and>
   promises (run onlookers [CallLoad 0, Settle 0 (Rejects (Error ''x''))] w_async) = [Fulfilled]"
  by code_simp

section \<open>How often the load function runs\<close>

text \<open>
  C3 says that the load function of an asset runs at most once, whatever
  \<^verbatim>\<open>load()\<close> calls are made. The only guard of \<^verbatim>\<open>load\<close> is
  \<^verbatim>\<open>if (loading) return\<close>, and \<^verbatim>\<open>loading\<close> is false again once a load has settled.
  An asset whose load function returns a plain value settles inside the first call, so
  a second call, made right after it, runs the load function a second time.
\<close>

theorem load_twice_counterexample:
  "\<not> a_calls (store (run onlookers [CallLoad 0, CallLoad 0] w_sync) ! 0) \<le> 1"
  by code_simp

text \<open>
  C3, amended. A \<^verbatim>\<open>load()\<close> call made while \<^verbatim>\<open>loading\<close> is true does nothing: no
  asset, no subscriber set and nothing of the loader changes, nobody is notified, and
  the call returns a new promise that is already fulfilled. A \<^verbatim>\<open>load()\<close> call made
  while \<^verbatim>\<open>loading\<close> is false, before any load or after one has settled, runs the
  load function exactly once more.
\<close>

theorem load_while_loading:
  assumes a: "a < length (store w)"
  shows "(a_loading (store w ! a) \<longrightarrow>
            store (fst (load env a w)) = store w \<and> ldr (fst (load env a w)) = ldr w \<and>
            trace (fst (load env a w)) = trace w \<and>
            promises (fst (load env a w)) = promises w @ [Fulfilled]) \<and>
         (\<not> a_loading (store w ! a) \<longrightarrow>
            a_calls (store (fst (load env a w)) ! a) = Suc (a_calls (store w ! a)))"
proof -
  have busy: "store (fst (load env a w)) = store w \<and> ldr (fst (load env a w)) = ldr w \<and>
            trace (fst (load env a w)) = trace w \<and>
            promises (fst (load env a w)) = promises w @ [Fulfilled]"
    if "a_loading (store w ! a)"
    using that by (simp add: load_when_loading)
  have free: "a_calls (store (fst (load env a w)) ! a) = Suc (a_calls (store w ! a))"
    if idle: "\<not> a_loading (store w ! a)"
  proof (cases "result (next_call a w)")
    case (Returns v)
    then show ?thesis
      using a by (simp add: load_unfold[OF idle a] finish_fields called_fields nth_list_update)
  next
    case (Throws e)
    then show ?thesis
      using a by (simp add: load_unfold[OF idle a] finish_fields catch_fields called_fields)
  next
    case ReturnsPromise
    then show ?thesis
      using a by (simp add: load_unfold[OF idle a] called_fields nth_list_update upd_asset_def)
  qed
  from busy free show ?thesis by blast
qed

theorem load_while_loading_witness:
  "0 < length (store (fst (load onlookers 0 w_async))) \<and>
   a_loading (store (fst (load onlookers 0 w_async)) ! 0) \<and>
   a_calls (store (fst (load onlookers 0 (fst (load onlookers 0 w_async)))) ! 0) = 1 \<and>
   trace (fst (load onlookers 0 (fst (load onlookers 0 w_async)))) = trace (fst (load onlookers 0 w_async)) \<and>
   0 < length (store w_sync) \<and> \<not> a_loading (store w_sync ! 0) \<and>
   a_calls (store (fst (load onlookers 0 w_sync)) ! 0) = Suc (a_calls (store w_sync ! 0))"
proof -
  have h1: "0 < length (store (fst (load onlookers 0 w_async)))" by code_simp
  have h2: "a_loading (store (fst (load onlookers 0 w_async)) ! 0)" by code_simp
  have h3: "a_calls (store (fst (load onlookers 0 w_async)) ! 0) = 1" by code_simp
  have k1: "0 < length (store w_sync)" by code_simp
  have k2: "\<not> a_loading (store w_sync ! 0)" by code_simp
  from load_while_loading[OF h1, of onlookers] h2
  have s: "store (fst (load onlookers 0 (fst (load onlookers 0 w_async)))) = store (fst (load onlookers 0 w_async))"
    and t: "trace (fst (load onlookers 0 (fst (load onlookers 0 w_async)))) = trace (fst (load onlookers 0 w_async))"
    by blast+
  from load_while_loading[OF k1, of onlookers] k2
  have c: "a_calls (store (fst (load onlookers 0 w_sync)) ! 0) = Suc (a_calls (store w_sync ! 0))"
    by blast
  from h1 h2 h3 k1 k2 s t c show ?thesis by simp
qed

section \<open>A failing load\<close>



section \<open>An asset after its load has settled\<close>

text \<open>
  C5. When the load of an asset settles, \<^verbatim>\<open>progress\<close> is 1 and \<^verbatim>\<open>loading\<close> is
  false, whether it succeeded or failed. A load settles inside the \<^verbatim>\<open>load()\<close> call
  when the load function returns a plain value or throws, and in the continuation run
  by the settlement \<open>out\<close> of the awaited promise otherwise. \<^verbatim>\<open>progress\<close> is the
  getter on the variable \<^verbatim>\<open>p\<close>; both the variable \<^verbatim>\<open>loading\<close> and the property
  \<^verbatim>\<open>loading\<close> of the asset object are false.
\<close>

theorem settled_progress_loading:
  assumes a: "a < length (store w)" and c: "constructed w"
  shows "(\<not> a_loading (store w ! a) \<and> result (next_call a w) \<noteq> ReturnsPromise \<longrightarrow>
            a_p (store (fst (load env a w)) ! a) = 1 \<and>
            \<not> a_loading (store (fst (load env a w)) ! a) \<and>
            \<not> pub_loading (store (fst (load env a w)) ! a)) \<and>
         (a_awaiting (store w ! a) \<noteq> None \<longrightarrow>
            a_p (store (resume env a out w) ! a) = 1 \<and>
            \<not> a_loading (store (resume env a out w) ! a) \<and>
            \<not> pub_loading (store (resume env a out w) ! a))"
proof -
  have pl: "\<not> pub_loading (store w ! a)" using constructed_nth[OF c a] by simp
  have sync: "a_p (store (fst (load env a w)) ! a) = 1 \<and>
            \<not> a_loading (store (fst (load env a w)) ! a) \<and>
            \<not> pub_loading (store (fst (load env a w)) ! a)"
    if idle: "\<not> a_loading (store w ! a)" and r: "result (next_call a w) \<noteq> ReturnsPromise"
  proof (cases "result (next_call a w)")
    case (Returns v)
    then show ?thesis
      using a pl by (simp add: load_unfold[OF idle a] finish_fields called_fields nth_list_update)
  next
    case (Throws e)
    then show ?thesis
      using a pl by (simp add: load_unfold[OF idle a] finish_fields catch_fields called_fields)
  next
    case ReturnsPromise
    with r show ?thesis by simp
  qed
  have async: "a_p (store (resume env a out w) ! a) = 1 \<and>
            \<not> a_loading (store (resume env a out w) ! a) \<and>
            \<not> pub_loading (store (resume env a out w) ! a)"
    if "a_awaiting (store w ! a) \<noteq> None"
  proof -
    from that obtain pr where pr: "a_awaiting (store w ! a) = Some pr" by auto
    show ?thesis
    proof (cases out)
      case (Resolves v)
      then show ?thesis
        using a pl by (simp add: resume_unfold[OF pr] finish_fields nth_list_update)
    next
      case (Rejects e)
      then show ?thesis
        using a pl by (simp add: resume_unfold[OF pr] finish_fields catch_fields nth_list_update)
    qed
  qed
  from sync async show ?thesis by blast
qed

theorem settled_progress_loading_witness:
  "0 < length (store w_sync) \<and> constructed w_sync \<and>
   \<not> a_loading (store w_sync ! 0) \<and> result (next_call 0 w_sync) \<noteq> ReturnsPromise \<and>
   a_p (store (fst (load onlookers 0 w_sync)) ! 0) = 1 \<and>
   \<not> a_loading (store (fst (load onlookers 0 w_sync)) ! 0) \<and>
   \<not> pub_loading (store (fst (load onlookers 0 w_sync)) ! 0) \<and>
   0 < length (store (fst (load onlookers 0 w_async))) \<and>
   constructed (fst (load onlookers 0 w_async)) \<and>
   a_awaiting (store (fst (load onlookers 0 w_async)) ! 0) \<noteq> None \<and>
   a_p (store (resume onlookers 0 (Rejects (Error ''x'')) (fst (load onlookers 0 w_async))) ! 0) = 1 \<and>
   \<not> a_loading (store (resume onlookers 0 (Rejects (Error ''x'')) (fst (load onlookers 0 w_async))) ! 0) \<and>
   \<not> pub_loading (store (resume onlookers 0 (Rejects (Error ''x'')) (fst (load onlookers 0 w_async))) ! 0)"
proof -
  have h1: "0 < length (store w_sync)" by code_simp
  have h2: "constructed w_sync" by code_simp
  have h3: "\<not> a_loading (store w_sync ! 0)" by code_simp
  have h4: "result (next_call 0 w_sync) \<noteq> ReturnsPromise" by code_simp
  have k1: "0 < length (store (fst (load onlookers 0 w_async)))" by code_simp
  have k2: "constructed (fst (load onlookers 0 w_async))" by code_simp
  have k3: "a_awaiting (store (fst (load onlookers 0 w_async)) ! 0) \<noteq> None" by code_simp
  from settled_progress_loading[OF h1 h2, of onlookers]
    settled_progress_loading[OF k1 k2, of onlookers "Rejects (Error ''x'')"]
    h1 h2 h3 h4 k1 k2 k3
  show ?thesis by simp
qed

section \<open>The progress of the loader\<close>

text \<open>
  C6 says that, for a loader over \<open>N\<close> plain assets, every recomputation of the
  loader's progress gives the mean of the progress of the \<open>N\<close> assets. \<^verbatim>\<open>start\<close>
  registers each asset just before it calls its \<^verbatim>\<open>load()\<close>, and a load function that
  returns a plain value settles inside that call. With two assets, the first of this
  kind, the recomputation triggered by the first asset's \<^verbatim>\<open>LOADED\<close> finds one
  registered asset: observer 7 of the loader is told \<^verbatim>\<open>PROGRESS\<close> and reads progress 1
  while the two assets stand at 1 and 0.
\<close>

theorem progress_during_start_counterexample:
  "e_target (trace (run onlookers [CallStart] w_pair) ! 2) = TLoader \<and>
   e_status (trace (run onlookers [CallStart] w_pair) ! 2) = PROGRESS \<and>
   e_progress (trace (run onlookers [CallStart] w_pair) ! 2) = 1 \<and>
   e_assets (trace (run onlookers [CallStart] w_pair) ! 2) = [1, 0] \<and>
   e_progress (trace (run onlookers [CallStart] w_pair) ! 2) \<noteq>
     mean (e_assets (trace (run onlookers [CallStart] w_pair) ! 2))"
  by code_simp

text \<open>
  C6, amended. Every recomputation sets the loader's progress to a value computed from
  the progress of the assets registered at that moment, in registration order and in
  the arithmetic of the runtime, whatever it is: the sum from the left, starting from
  0, in which a progress that counts as false (\<^verbatim>\<open>NaN\<close> as well as 0) enters as 0,
  divided by the number of registered assets; 0 when none is registered. Where the
  arithmetic is exact and only 0 counts as false, this is the arithmetic mean. The first
  \<^verbatim>\<open>start()\<close> registers the plain assets in the order of the arguments, so all of them
  are registered once it has returned.
\<close>

theorem progress_mean_of_registered:
  "l_progress (ldr (loader_updateProgress env w)) =
     counted_mean env (map (\<lambda>a. a_p (store w ! a)) (l_assets (ldr w))) \<and>
   (l_assets (ldr w) = [] \<longrightarrow> l_progress (ldr (loader_updateProgress env w)) = 0) \<and>
   counted_mean (exact r) xs = mean xs \<and>
   (l_promise (ldr w) = None \<longrightarrow>
      l_assets (ldr (fst (start env w))) = l_assets (ldr w) @ plain_refs (inputs (ldr w)))"
proof -
  have a: "l_progress (ldr (loader_updateProgress env w)) =
      counted_mean env (map (\<lambda>a. a_p (store w ! a)) (l_assets (ldr w)))"
    by (rule loader_updateProgress_value)
  have b: "l_assets (ldr w) = [] \<longrightarrow> l_progress (ldr (loader_updateProgress env w)) = 0"
    by (simp add: loader_updateProgress_value counted_mean_def)
  have c: "counted_mean (exact r) xs = mean xs"
    by (rule counted_mean_exact)
  have d: "l_promise (ldr w) = None \<longrightarrow>
      l_assets (ldr (fst (start env w))) = l_assets (ldr w) @ plain_refs (inputs (ldr w))"
    by (simp add: start_first)
  from a b c d show ?thesis by blast
qed

theorem progress_mean_of_registered_witness:
  "l_assets (ldr w_pair) = [] \<and> l_promise (ldr w_pair) = None \<and>
   l_progress (ldr (loader_updateProgress onlookers w_pair)) = 0 \<and>
   l_assets (ldr (fst (start onlookers w_pair))) = [0, 1] \<and>
   map (\<lambda>a. a_p (store (fst (start onlookers w_pair)) ! a)) [0, 1] = [1, 0] \<and>
   l_progress (ldr (loader_updateProgress onlookers (fst (start onlookers w_pair)))) = 1 / 2 \<and>
   l_assets (ldr (run nan_onlookers [CallStart, Report 0 NaN, Report 1 (Num 1)] w_nan)) = [0, 1] \<and>
   map (\<lambda>a. a_p (store (run nan_onlookers [CallStart, Report 0 NaN, Report 1 (Num 1)] w_nan) ! a))
     [0, 1] = [NaN, Num 1] \<and>
   l_progress (ldr (loader_updateProgress nan_onlookers
     (run nan_onlookers [CallStart, Report 0 NaN, Report 1 (Num 1)] w_nan))) = Num (1 / 2)"
proof -
  let ?v = "fst (start onlookers w_pair)"
  let ?u = "run nan_onlookers [CallStart, Report 0 NaN, Report 1 (Num 1)] w_nan"
  have h1: "l_assets (ldr w_pair) = []" by code_simp
  have h2: "l_promise (ldr w_pair) = None" by code_simp
  have h3: "plain_refs (inputs (ldr w_pair)) = [0, 1]" by code_simp
  have h4: "map (\<lambda>a. a_p (store ?v ! a)) [0, 1] = [1, 0]" by code_simp
  have h5: "mean [1, 0] = 1 / 2" by code_simp
  have h6: "l_assets (ldr ?u) = [0, 1]" by code_simp
  have h7: "map (\<lambda>a. a_p (store ?u ! a)) [0, 1] = [NaN, Num 1]" by code_simp
  have h8: "counted_mean nan_onlookers [NaN, Num 1] = Num (1 / 2)" by code_simp
  have e: "onlookers = exact (\<lambda>n s. [])" by (simp add: onlookers_def)
  note t1 = progress_mean_of_registered[of onlookers w_pair "\<lambda>n s. []" "[1, 0]"]
  from t1 h1 have a: "l_progress (ldr (loader_updateProgress onlookers w_pair)) = 0"
    by blast
  from t1 h1 h2 h3 have b: "l_assets (ldr ?v) = [0, 1]"
    by simp
  note t2 = progress_mean_of_registered[of onlookers ?v "\<lambda>n s. []" "[1, 0]"]
  from t2 have "l_progress (ldr (loader_updateProgress onlookers ?v)) =
      counted_mean onlookers (map (\<lambda>a. a_p (store ?v ! a)) (l_assets (ldr ?v)))"
    by blast
  also have "\<dots> = counted_mean onlookers [1, 0]"
    by (simp only: b h4)
  also have "\<dots> = counted_mean (exact (\<lambda>n s. [])) [1, 0]"
    by (simp only: e)
  also from t2 have "\<dots> = mean [1, 0]"
    by blast
  finally have c: "l_progress (ldr (loader_updateProgress onlookers ?v)) = 1 / 2"
    by (simp only: h5)
  note t3 = progress_mean_of_registered[of nan_onlookers ?u "\<lambda>n s. []" "[]"]
  from t3 have "l_progress (ldr (loader_updateProgress nan_onlookers ?u)) =
      counted_mean nan_onlookers (map (\<lambda>a. a_p (store ?u ! a)) (l_assets (ldr ?u)))"
    by blast
  then have d: "l_progress (ldr (loader_updateProgress nan_onlookers ?u)) = Num (1 / 2)"
    by (simp only: h6 h7 h8)
  from h1 h2 a b h4 c h6 h7 d show ?thesis by blast
qed

section \<open>Calling \<^verbatim>\<open>start\<close> again\<close>

text \<open>
  C7. Whatever happens after the first \<^verbatim>\<open>start()\<close> has returned (any steps
  \<open>evs\<close>, further \<^verbatim>\<open>start()\<close> calls among them), a later \<^verbatim>\<open>start()\<close> returns the
  promise the first one returned and runs nothing: no asset changes, so no load function
  is called, no factory is called, nobody is notified and no promise is created.
\<close>

theorem start_idempotent:
  "snd (start env (run env evs (fst (start env w)))) = snd (start env w) \<and>
   store (fst (start env (run env evs (fst (start env w))))) = store (run env evs (fst (start env w))) \<and>
   factory_calls (ldr (fst (start env (run env evs (fst (start env w)))))) =
     factory_calls (ldr (run env evs (fst (start env w)))) \<and>
   trace (fst (start env (run env evs (fst (start env w))))) = trace (run env evs (fst (start env w))) \<and>
   promises (fst (start env (run env evs (fst (start env w))))) = promises (run env evs (fst (start env w)))"
proof -
  have "l_promise (ldr (run env evs (fst (start env w)))) = Some (snd (start env w))"
    by (rule run_keeps_promise) (rule start_promise)
  then show ?thesis by (simp add: start_again)
qed

section \<open>Unsubscribing during a broadcast\<close>

text \<open>
  C8 says that a callback which unsubscribes a subscriber during a broadcast, itself or
  another, never causes another callback that was already subscribed to be skipped. A
  broadcast iterates over the subscriber set itself, not over a copy taken at its
  beginning, and an entry deleted before its turn is not visited. In \<open>w_three\<close>
  observers 1, 2 and 3 are subscribed to asset 0 and to the loader, in this order, and
  observer 1, when called, unsubscribes itself and observer 2: observer 2, subscribed
  when the broadcast began, is not called in it, by the asset or by the loader, while
  observers 1 and 3 are.
\<close>

theorem unsubscribed_before_turn_counterexample:
  "subscribed (TAsset 0) 2 w_three \<and>
   heard (TAsset 0) 2 (broadcast leavers 0 LOADED w_three) = heard (TAsset 0) 2 w_three \<and>
   heard (TAsset 0) 1 (broadcast leavers 0 LOADED w_three) =
     heard (TAsset 0) 1 w_three @ [snapshot (TAsset 0) 1 LOADED w_three] \<and>
   heard (TAsset 0) 3 (broadcast leavers 0 LOADED w_three) =
     heard (TAsset 0) 3 w_three @ [snapshot (TAsset 0) 3 LOADED w_three] \<and>
   subscribed TLoader 2 w_three \<and>
   heard TLoader 2 (loader_broadcast leavers LOADED w_three) = heard TLoader 2 w_three \<and>
   heard TLoader 1 (loader_broadcast leavers LOADED w_three) =
     heard TLoader 1 w_three @ [snapshot TLoader 1 LOADED w_three] \<and>
   heard TLoader 3 (loader_broadcast leavers LOADED w_three) =
     heard TLoader 3 w_three @ [snapshot TLoader 3 LOADED w_three]"
  by code_simp

text \<open>
  C8, amended. In a broadcast of an asset or of the loader, whatever the callbacks
  unsubscribe while it runs (themselves or others), a callback that was subscribed when
  the broadcast began and is still subscribed at its end is called exactly once in it,
  and no callback is called twice. A callback that another one unsubscribes before its
  turn is not protected: the subscriber set is iterated live, without a snapshot.
\<close>

theorem broadcast_unsubscribe:
  assumes "sets_ok w" and "a < length (store w)"
  shows "(subscribed (TAsset a) n w \<and> subscribed (TAsset a) n (broadcast env a s w) \<longrightarrow>
           heard (TAsset a) n (broadcast env a s w) = heard (TAsset a) n w @ [snapshot (TAsset a) n s w]) \<and>
         length (heard (TAsset a) n (broadcast env a s w)) \<le> Suc (length (heard (TAsset a) n w)) \<and>
         (subscribed TLoader n w \<and> subscribed TLoader n (loader_broadcast env s w) \<longrightarrow>
           heard TLoader n (loader_broadcast env s w) = heard TLoader n w @ [snapshot TLoader n s w]) \<and>
         length (heard TLoader n (loader_broadcast env s w)) \<le> Suc (length (heard TLoader n w))"
proof -
  from assms have da: "distinct_entries (a_subscribers (store w ! a))"
    and dl: "distinct_entries (l_subscribers (ldr w))"
    by (simp_all add: sets_ok_def list_all_length)
  show ?thesis
    using broadcast_once[OF da, of n env s] broadcast_at_most_once[OF da, of n env s]
      loader_broadcast_once[OF dl, of n env s] loader_broadcast_at_most_once[OF dl, of n env s]
    by auto
qed

theorem broadcast_unsubscribe_witness:
  "sets_ok w_three \<and> 0 < length (store w_three) \<and>
   subscribed (TAsset 0) 3 w_three \<and> subscribed (TAsset 0) 3 (broadcast leavers 0 LOADED w_three) \<and>
   heard (TAsset 0) 3 (broadcast leavers 0 LOADED w_three) =
     heard (TAsset 0) 3 w_three @ [snapshot (TAsset 0) 3 LOADED w_three] \<and>
   subscribed TLoader 3 w_three \<and> subscribed TLoader 3 (loader_broadcast leavers LOADED w_three) \<and>
   heard TLoader 3 (loader_broadcast leavers LOADED w_three) =
     heard TLoader 3 w_three @ [snapshot TLoader 3 LOADED w_three]"
proof -
  have h1: "sets_ok w_three" by code_simp
  have h2: "0 < length (store w_three)" by code_simp
  have h3: "subscribed (TAsset 0) 3 w_three" by code_simp
  have h4: "subscribed (TAsset 0) 3 (broadcast leavers 0 LOADED w_three)" by code_simp
  have h6: "subscribed TLoader 3 w_three" by code_simp
  have h7: "subscribed TLoader 3 (loader_broadcast leavers LOADED w_three)" by code_simp
  from broadcast_unsubscribe[OF h1 h2, of 3 leavers LOADED] h3 h4 h6 h7
  have a: "heard (TAsset 0) 3 (broadcast leavers 0 LOADED w_three) =
      heard (TAsset 0) 3 w_three @ [snapshot (TAsset 0) 3 LOADED w_three]"
    and b: "heard TLoader 3 (loader_broadcast leavers LOADED w_three) =
      heard TLoader 3 w_three @ [snapshot TLoader 3 LOADED w_three]"
    by blast+
  from h1 h2 h3 h4 a h6 h7 b show ?thesis by blast
qed

section \<open>Looking an asset up by id\<close>

text \<open>
  C9 says that \<^verbatim>\<open>get(id)\<close> returns the asset registered last under \<open>id\<close>.
  \<^verbatim>\<open>addToLoader\<close> indexes an asset only when its id is truthy, and the empty string
  is not: an asset whose id is the empty string is registered but
  \<^verbatim>\<open>get("")\<close> is undefined.
\<close>

theorem empty_id_counterexample:
  "l_assets (ldr (run onlookers [CallStart] w_blank)) = [0] \<and>
   options_id (store (run onlookers [CallStart] w_blank) ! 0) = Some [] \<and>
   latest [] (run onlookers [CallStart] w_blank) = Some 0 \<and>
   get [] (run onlookers [CallStart] w_blank) = None"
  by code_simp

text \<open>
  C9, amended. In every state a loader can reach, \<^verbatim>\<open>get(id)\<close> with an id other
  than the empty string returns the asset registered last among the registered assets
  with that id, and undefined when no registered asset has it (assets without an id
  have none); \<^verbatim>\<open>get("")\<close> is undefined.
\<close>

theorem get_latest_registered:
  "(i \<noteq> [] \<longrightarrow> get i (run env evs (init assets ins)) = latest i (run env evs (init assets ins))) \<and>
   get [] (run env evs (init assets ins)) = None \<and>
   ((\<forall>a\<in>set (l_assets (ldr (run env evs (init assets ins)))).
       options_id (store (run env evs (init assets ins)) ! a) \<noteq> Some i) \<longrightarrow>
     get i (run env evs (init assets ins)) = None)"
proof -
  have "indexed (run env evs (init assets ins))"
    by (rule indexed_run) (rule indexed_init)
  then have g: "get j (run env evs (init assets ins)) =
      (if j = [] then None else latest j (run env evs (init assets ins)))" for j
    by (simp add: indexed_def)
  have "latest i (run env evs (init assets ins)) = None"
    if "\<forall>a\<in>set (l_assets (ldr (run env evs (init assets ins)))).
       options_id (store (run env evs (init assets ins)) ! a) \<noteq> Some i"
    using that by (simp add: latest_def find_None_iff)
  then show ?thesis using g by simp
qed

theorem get_latest_registered_witness:
  "''k'' \<noteq> [] \<and>
   l_assets (ldr (run onlookers [CallStart, FactoryResolves 1 [2]] w_ids)) = [0, 1, 2] \<and>
   get ''k'' (run onlookers [CallStart, FactoryResolves 1 [2]] w_ids) = Some 2 \<and>
   map (\<lambda>a. options_id (store (run onlookers [CallStart, FactoryResolves 1 [2]] w_ids) ! a))
     (l_assets (ldr (run onlookers [CallStart, FactoryResolves 1 [2]] w_ids))) =
     [Some ''k'', None, Some ''k''] \<and>
   get ''z'' (run onlookers [CallStart, FactoryResolves 1 [2]] w_ids) = None"
proof -
  let ?assets = "[asset (\<lambda>k. Call [] ReturnsPromise) (Some ''k''),
                  asset (\<lambda>k. Call [] ReturnsPromise) None,
                  asset (\<lambda>k. Call [] ReturnsPromise) (Some ''k'')] :: (string, rat) asset_state list"
  let ?w = "run onlookers [CallStart, FactoryResolves 1 [2]] (init ?assets [Plain 0, Factory 0, Plain 1])"
  have w: "run onlookers [CallStart, FactoryResolves 1 [2]] w_ids = ?w"
    by (simp only: w_ids_def)
  have h1: "l_assets (ldr ?w) = [0, 1, 2]" by code_simp
  have h2: "latest ''k'' ?w = Some 2" by code_simp
  have h3: "\<forall>a\<in>set (l_assets (ldr ?w)). options_id (store ?w ! a) \<noteq> Some ''z''" by code_simp
  from get_latest_registered[of "''k''" onlookers "[CallStart, FactoryResolves 1 [2]]"
      ?assets "[Plain 0, Factory 0, Plain 1]"] h2
  have a: "get ''k'' ?w = Some 2" by simp
  from get_latest_registered[of "''z''" onlookers "[CallStart, FactoryResolves 1 [2]]"
      ?assets "[Plain 0, Factory 0, Plain 1]"] h3
  have b: "get ''z'' ?w = None" by blast
  have h4: "map (\<lambda>a. options_id (store ?w ! a)) (l_assets (ldr ?w)) = [Some ''k'', None, Some ''k'']"
    by code_simp
  from h1 h4 a b show ?thesis unfolding w by simp
qed

section \<open>Reading \<^verbatim>\<open>data\<close> from an idle asset\<close>

text \<open>
  C10. On an idle asset (no data, not loading) whose load function returns a defined
  value \<open>v\<close> without a promise and without throwing, the first read of \<^verbatim>\<open>data\<close>
  runs \<^verbatim>\<open>load\<close> to its end inside the read: the load function has been called once,
  \<^verbatim>\<open>data\<close> is \<open>v\<close>, \<^verbatim>\<open>progress\<close> is 1, \<^verbatim>\<open>loading\<close> is false, the promise of
  the \<^verbatim>\<open>load()\<close> call is fulfilled, every observer still subscribed has received
  \<^verbatim>\<open>LOADING\<close>, the progress reports and \<^verbatim>\<open>LOADED\<close>, and the read itself returns
  \<open>v\<close>.
\<close>

theorem data_getter_synchronous:
  assumes a: "a < length (store w)"
    and idle: "a_data (store w ! a) = None" "\<not> a_loading (store w ! a)"
    and sync: "result (next_call a w) = Returns (Some v)"
  shows "fst (get_data env a w) = Some v \<and>
         snd (get_data env a w) = fst (load env a w) \<and>
         a_data (store (snd (get_data env a w)) ! a) = Some v \<and>
         a_p (store (snd (get_data env a w)) ! a) = 1 \<and>
         \<not> a_loading (store (snd (get_data env a w)) ! a) \<and>
         a_calls (store (snd (get_data env a w)) ! a) = Suc (a_calls (store w ! a)) \<and>
         promises (snd (get_data env a w)) ! snd (load env a w) = Fulfilled \<and>
         (distinct_entries (a_subscribers (store w ! a)) \<and>
          subscribed (TAsset a) n (snd (get_data env a w)) \<longrightarrow>
            view (TAsset a) n (snd (get_data env a w)) =
              view (TAsset a) n w @ [(LOADING, True, a_p (store w ! a))] @
              map (\<lambda>x. (PROGRESS, True, x)) (reports (next_call a w)) @ [(LOADED, False, 1)])"
proof -
  let ?pr = "length (promises w)"
  let ?w5 = "upd_asset a (\<lambda>s. s\<lparr>a_data := Some v\<rparr>) (called env a w)"
  have ld: "load env a w = (finish env a ?pr ?w5, ?pr)"
    using sync by (simp add: load_unfold[OF idle(2) a])
  have gd: "get_data env a w = (a_data (store (finish env a ?pr ?w5) ! a), finish env a ?pr ?w5)"
    using idle ld by (simp add: get_data_def Let_def)
  have a5: "a < length (store ?w5)" using a by (simp add: called_fields)
  have fields: "a_data (store (finish env a ?pr ?w5) ! a) = Some v"
    "a_p (store (finish env a ?pr ?w5) ! a) = 1"
    "\<not> a_loading (store (finish env a ?pr ?w5) ! a)"
    "a_calls (store (finish env a ?pr ?w5) ! a) = Suc (a_calls (store w ! a))"
    using a by (simp_all add: finish_fields called_fields)
  have "length (promises ?w5) = Suc ?pr" by simp
  then have prom: "promises (finish env a ?pr ?w5) ! ?pr = Fulfilled"
    by (simp add: promises_finish)
  have vw: "view (TAsset a) n (finish env a ?pr ?w5) =
              view (TAsset a) n w @ [(LOADING, True, a_p (store w ! a))] @
              map (\<lambda>x. (PROGRESS, True, x)) (reports (next_call a w)) @ [(LOADED, False, 1)]"
    if ok: "distinct_entries (a_subscribers (store w ! a))"
      and still: "subscribed (TAsset a) n (finish env a ?pr ?w5)"
  proof -
    have s5: "subscribed (TAsset a) n ?w5"
      using shrunk_subscribed[OF shrunk_finish still] .
    then have s4: "subscribed (TAsset a) n (called env a w)"
      using a by (simp add: called_fields)
    have d4: "distinct_entries (a_subscribers (store (called env a w) ! a))"
      using shrunk_distinct[OF shrunk_called ok] .
    then have d5: "distinct_entries (a_subscribers (store ?w5 ! a))"
      using a by (simp add: called_fields)
    from view_finish[OF d5 a5 still] view_called[OF ok a s4]
    show ?thesis by simp
  qed
  show ?thesis
    unfolding gd ld fst_conv snd_conv using fields prom vw by blast
qed

theorem data_getter_synchronous_witness:
  "0 < length (store w_sync) \<and> a_data (store w_sync ! 0) = None \<and> \<not> a_loading (store w_sync ! 0) \<and>
   result (next_call 0 w_sync) = Returns (Some ''done'') \<and>
   distinct_entries (a_subscribers (store w_sync ! 0)) \<and>
   subscribed (TAsset 0) 1 (snd (get_data onlookers 0 w_sync)) \<and>
   fst (get_data onlookers 0 w_sync) = Some ''done'' \<and>
   a_p (store (snd (get_data onlookers 0 w_sync)) ! 0) = 1 \<and>
   \<not> a_loading (store (snd (get_data onlookers 0 w_sync)) ! 0) \<and>
   view (TAsset 0) 1 (snd (get_data onlookers 0 w_sync)) =
     view (TAsset 0) 1 w_sync @ [(LOADING, True, a_p (store w_sync ! 0))] @
     map (\<lambda>x. (PROGRESS, True, x)) (reports (next_call 0 w_sync)) @ [(LOADED, False, 1)]"
proof -
  have h1: "0 < length (store w_sync)" by code_simp
  have h2: "a_data (store w_sync ! 0) = None" by code_simp
  have h3: "\<not> a_loading (store w_sync ! 0)" by code_simp
  have h4: "result (next_call 0 w_sync) = Returns (Some ''done'')" by code_simp
  have h5: "distinct_entries (a_subscribers (store w_sync ! 0))" by code_simp
  have h6: "subscribed (TAsset 0) 1 (snd (get_data onlookers 0 w_sync))" by code_simp
  note t = data_getter_synchronous[OF h1 h2 h3 h4, of onlookers 1]
  from t have f: "fst (get_data onlookers 0 w_sync) = Some ''done''"
    and p: "a_p (store (snd (get_data onlookers 0 w_sync)) ! 0) = 1"
    and l: "\<not> a_loading (store (snd (get_data onlookers 0 w_sync)) ! 0)"
    by blast+
  from t h5 h6 have v: "view (TAsset 0) 1 (snd (get_data onlookers 0 w_sync)) =
     view (TAsset 0) 1 w_sync @ [(LOADING, True, a_p (store w_sync ! 0))] @
     map (\<lambda>x. (PROGRESS, True, x)) (reports (next_call 0 w_sync)) @ [(LOADED, False, 1)]"
    by blast
  from h1 h2 h3 h4 h5 h6 f p l v show ?thesis by blast
qed

end
